theory Spec2Isabelle
  imports Main
begin

section \<open>Strings of the source language\<close>

text \<open>
  A string of the source is a sequence of UTF-16 code units; a code unit is a natural
  number. \<open>str\<close> turns an ASCII literal into such a sequence.
\<close>

type_synonym jsstring = "nat list"

abbreviation (input) str :: "string \<Rightarrow> jsstring" where
  "str s \<equiv> map of_char s"

text \<open>The line terminators (what \<open>.\<close> refuses, where \<open>^\<close> and \<open>$\<close> hold under the m flag).\<close>

definition isLineTerminator :: "nat \<Rightarrow> bool" where
  "isLineTerminator c = (c = 10 \<or> c = 13 \<or> c = 8232 \<or> c = 8233)"

text \<open>The class \<open>\s\<close>, which is also what \<open>trim\<close> strips: white space and line terminators.\<close>

definition isSpace :: "nat \<Rightarrow> bool" where
  "isSpace c = (c = 9 \<or> c = 10 \<or> c = 11 \<or> c = 12 \<or> c = 13 \<or> c = 32 \<or> c = 160
     \<or> c = 5760 \<or> (8192 \<le> c \<and> c \<le> 8202) \<or> c = 8232 \<or> c = 8233 \<or> c = 8239
     \<or> c = 8287 \<or> c = 12288 \<or> c = 65279)"

definition isLetter :: "nat \<Rightarrow> bool" where
  "isLetter c = ((65 \<le> c \<and> c \<le> 90) \<or> (97 \<le> c \<and> c \<le> 122))"

definition isDigit :: "nat \<Rightarrow> bool" where
  "isDigit c = (48 \<le> c \<and> c \<le> 57)"

definition isDot :: "nat \<Rightarrow> bool" where
  "isDot c = (\<not> isLineTerminator c)"

fun startsWith :: "jsstring \<Rightarrow> jsstring \<Rightarrow> bool" where
  "startsWith s [] = True"
| "startsWith [] (p # ps) = False"
| "startsWith (c # cs) (p # ps) = (c = p \<and> startsWith cs ps)"

text \<open>\<open>s.includes(p)\<close>: \<open>p\<close> occurs in \<open>s\<close> as a contiguous block.\<close>

fun includesStr :: "jsstring \<Rightarrow> jsstring \<Rightarrow> bool" where
  "includesStr [] p = (p = [])"
| "includesStr (c # cs) p = (startsWith (c # cs) p \<or> includesStr cs p)"

definition trim :: "jsstring \<Rightarrow> jsstring" where
  "trim s = rev (dropWhile isSpace (rev (dropWhile isSpace s)))"

text \<open>
  \<open>s.split('\n')\<close>: the pieces between the separators; never an empty list.
\<close>

fun splitOn :: "nat \<Rightarrow> jsstring \<Rightarrow> jsstring list" where
  "splitOn d [] = [[]]"
| "splitOn d (c # cs) =
     (let pieces = splitOn d cs
      in if c = d then [] # pieces else (c # hd pieces) # tl pieces)"

section \<open>Regular expressions\<close>

text \<open>
  The regular expressions of the source are sequences of literals, quantified character
  classes, anchors and capture groups; there is no alternation and every quantifier
  stands on a single character class. \<open>Rep cls lo hi greedy\<close> is the class \<open>cls\<close>
  repeated \<open>lo\<close> to \<open>hi\<close> times (\<open>None\<close>: unbounded), greedy or lazy. \<open>Bol\<close> and \<open>Eol\<close>
  are \<open>^\<close> and \<open>$\<close> under the m flag, \<open>Boi\<close> and \<open>Eoi\<close> the same without it.
  \<open>Open g\<close> and \<open>Close g\<close> are the parentheses of capture group \<open>g\<close>.
\<close>

datatype item =
    Lit jsstring
  | Rep "nat \<Rightarrow> bool" nat "nat option" bool
  | Bol | Eol | Boi | Eoi
  | Open nat | Close nat

text \<open>A replacement string: literal text and \<open>$g\<close>.\<close>

datatype tpl = T jsstring | G nat

text \<open>
  The backtracking matcher. \<open>matchItems its orig pos rest prev opn caps\<close> matches the
  items \<open>its\<close> at offset \<open>pos\<close> of the attempt that started on \<open>orig\<close>; \<open>rest\<close> is the
  input from that offset on, \<open>prev\<close> the code unit before it. The result is the offset
  after the match and the captured groups. \<open>tryRep\<close> tries the repetition counts of a
  quantifier in the order of its kind, each followed by the remaining items.
\<close>

function matchItems ::
  "item list \<Rightarrow> jsstring \<Rightarrow> nat \<Rightarrow> jsstring \<Rightarrow> nat option \<Rightarrow> (nat \<times> nat) list \<Rightarrow>
     (nat \<times> jsstring) list \<Rightarrow> (nat \<times> (nat \<times> jsstring) list) option"
and tryRep ::
  "nat list \<Rightarrow> item list \<Rightarrow> jsstring \<Rightarrow> nat \<Rightarrow> jsstring \<Rightarrow> nat option \<Rightarrow> (nat \<times> nat) list \<Rightarrow>
     (nat \<times> jsstring) list \<Rightarrow> (nat \<times> (nat \<times> jsstring) list) option"
where
  "matchItems [] orig pos rest prev opn caps = Some (pos, caps)"
| "matchItems (Lit l # its) orig pos rest prev opn caps =
     (if startsWith rest l
      then matchItems its orig (pos + length l) (drop (length l) rest)
             (if l = [] then prev else Some (last l)) opn caps
      else None)"
| "matchItems (Rep cls lo hi greedy # its) orig pos rest prev opn caps =
     (let n = length (takeWhile cls rest);
          m = (case hi of None \<Rightarrow> n | Some h \<Rightarrow> min n h)
      in if m < lo then None
         else tryRep (if greedy then rev [lo..<Suc m] else [lo..<Suc m])
                its orig pos rest prev opn caps)"
| "matchItems (Bol # its) orig pos rest prev opn caps =
     (case prev of
        None \<Rightarrow> matchItems its orig pos rest prev opn caps
      | Some c \<Rightarrow>
          if isLineTerminator c then matchItems its orig pos rest prev opn caps else None)"
| "matchItems (Eol # its) orig pos rest prev opn caps =
     (case rest of
        [] \<Rightarrow> matchItems its orig pos rest prev opn caps
      | c # _ \<Rightarrow>
          if isLineTerminator c then matchItems its orig pos rest prev opn caps else None)"
| "matchItems (Boi # its) orig pos rest prev opn caps =
     (if prev = None then matchItems its orig pos rest prev opn caps else None)"
| "matchItems (Eoi # its) orig pos rest prev opn caps =
     (if rest = [] then matchItems its orig pos rest prev opn caps else None)"
| "matchItems (Open g # its) orig pos rest prev opn caps =
     matchItems its orig pos rest prev ((g, pos) # opn) caps"
| "matchItems (Close g # its) orig pos rest prev opn caps =
     (case map_of opn g of
        None \<Rightarrow> None
      | Some s \<Rightarrow>
          matchItems its orig pos rest prev opn ((g, take (pos - s) (drop s orig)) # caps))"
| "tryRep [] its orig pos rest prev opn caps = None"
| "tryRep (k # ks) its orig pos rest prev opn caps =
     (case matchItems its orig (pos + k) (drop k rest)
             (if k = 0 then prev else Some (rest ! (k - 1))) opn caps of
        Some r \<Rightarrow> Some r
      | None \<Rightarrow> tryRep ks its orig pos rest prev opn caps)"
  by pat_completeness auto
termination
  by (relation "measures
        [\<lambda>x. case x of Inl (its, _) \<Rightarrow> 2 * length its | Inr (ks, its, _) \<Rightarrow> 2 * length its + 1,
         \<lambda>x. case x of Inl _ \<Rightarrow> 0 | Inr (ks, _) \<Rightarrow> length ks]") auto

fun subst :: "tpl list \<Rightarrow> (nat \<times> jsstring) list \<Rightarrow> jsstring" where
  "subst [] caps = []"
| "subst (T s # ts) caps = s @ subst ts caps"
| "subst (G g # ts) caps = (case map_of caps g of None \<Rightarrow> [] | Some s \<Rightarrow> s) @ subst ts caps"

text \<open>
  \<open>s.replace(/re/g, tp)\<close>: from left to right, every match is replaced and the search
  goes on after it; a code unit where no match starts is copied. After an empty match
  the next code unit is copied and the search goes on behind it.
\<close>

function replaceAll :: "item list \<Rightarrow> tpl list \<Rightarrow> nat option \<Rightarrow> jsstring \<Rightarrow> jsstring" where
  "replaceAll re tp prev [] =
     (case matchItems re [] 0 [] prev [] [] of None \<Rightarrow> [] | Some (n, caps) \<Rightarrow> subst tp caps)"
| "replaceAll re tp prev (c # cs) =
     (case matchItems re (c # cs) 0 (c # cs) prev [] [] of
        None \<Rightarrow> c # replaceAll re tp (Some c) cs
      | Some (n, caps) \<Rightarrow>
          subst tp caps @
          (if n = 0 then c # replaceAll re tp (Some c) cs
           else replaceAll re tp (Some ((c # cs) ! (n - 1))) (drop (n - 1) cs)))"
  by pat_completeness auto
termination
  by (relation "measure (\<lambda>(re, tp, prev, s). length s)") auto

section \<open>What the platform provides\<close>

text \<open>
  A parsed JSON text. A number is kept by the string that the source language prints
  for it (\<open>"0"\<close> for both zeros), which is all the program can observe of it. An object
  is the list of its members in the order of the text.
\<close>

datatype json =
    JNull
  | JBool bool
  | JNum jsstring
  | JStr jsstring
  | JArr "json list"
  | JObj "(jsstring \<times> json) list"

text \<open>
  The program calls two functions that are not its own: \<open>JSON.parse\<close>, which throws
  (\<open>None\<close>) or returns a value, and the entity decoding that the browser performs when
  a text is assigned to the \<open>innerHTML\<close> of a \<open>textarea\<close> and read back. Both are
  parameters of the model.
\<close>

record platform =
  JSON_parse :: "jsstring \<Rightarrow> json option"
  decodeHtmlEntities :: "jsstring \<Rightarrow> jsstring"

section \<open>The formatting functions\<close>

definition html :: jsstring where
  "html = str ''html''"

definition ws0 :: item where
  "ws0 = Rep isSpace 0 None True"

text \<open>\<open>/html\s*html/g\<close>, \<open>/html\s*\n\s*html/g\<close>, \<open>/html\s*\n\s*\n\s*html/g\<close>\<close>

definition re_html_html :: "item list" where
  "re_html_html = [Lit html, ws0, Lit html]"

definition re_html_nl_html :: "item list" where
  "re_html_nl_html = [Lit html, ws0, Lit [10], ws0, Lit html]"

definition re_html_nl_nl_html :: "item list" where
  "re_html_nl_nl_html = [Lit html, ws0, Lit [10], ws0, Lit [10], ws0, Lit html]"

text \<open>\<open>/([a-zA-Z\s]+)html$/g\<close>\<close>

definition re_text_html_end :: "item list" where
  "re_text_html_end =
     [Open 1, Rep (\<lambda>c. isLetter c \<or> isSpace c) 1 None True, Close 1, Lit html, Eoi]"

text \<open>\<open>/\n{3,}/g\<close> and \<open>/\s{2,}/g\<close>\<close>

definition re_nl3 :: "item list" where
  "re_nl3 = [Rep (\<lambda>c. c = 10) 3 None True]"

definition re_ws2 :: "item list" where
  "re_ws2 = [Rep isSpace 2 None True]"

definition formatTextContent :: "platform \<Rightarrow> jsstring \<Rightarrow> jsstring" where
  "formatTextContent P text =
    (let decoded = decodeHtmlEntities P text;
         cleaned = decoded;
         cleaned = replaceAll re_html_html [T html] None cleaned;
         cleaned = replaceAll re_html_nl_html [T html] None cleaned;
         cleaned = replaceAll re_html_nl_nl_html [T html] None cleaned;
         cleaned = replaceAll re_html_html [T html] None cleaned;
         cleaned = replaceAll re_text_html_end [G 1] None cleaned;
         cleaned = replaceAll re_nl3 [T [10, 10]] None cleaned;
         cleaned = replaceAll re_ws2 [T [32]] None cleaned
     in trim cleaned)"

definition processTextContent :: "platform \<Rightarrow> jsstring \<Rightarrow> jsstring \<Rightarrow> jsstring" where
  "processTextContent P text accumulatedContent =
    (let formattedText = formatTextContent P text
     in if accumulatedContent \<noteq> []
        then (if includesStr accumulatedContent formattedText
              then accumulatedContent
              else accumulatedContent @ formattedText)
        else formattedText)"

text \<open>
  \<open>s.replace(/re/, tp)\<close>, without the g flag: only the first match is replaced.
\<close>

fun replaceFirst :: "item list \<Rightarrow> tpl list \<Rightarrow> nat option \<Rightarrow> jsstring \<Rightarrow> jsstring" where
  "replaceFirst re tp prev [] =
     (case matchItems re [] 0 [] prev [] [] of None \<Rightarrow> [] | Some (n, caps) \<Rightarrow> subst tp caps)"
| "replaceFirst re tp prev (c # cs) =
     (case matchItems re (c # cs) 0 (c # cs) prev [] [] of
        None \<Rightarrow> c # replaceFirst re tp (Some c) cs
      | Some (n, caps) \<Rightarrow> subst tp caps @ drop n (c # cs))"

text \<open>\<open>re.test(s)\<close> for an expression without flags: is there a match anywhere.\<close>

fun testRe :: "item list \<Rightarrow> nat option \<Rightarrow> jsstring \<Rightarrow> bool" where
  "testRe re prev [] = (matchItems re [] 0 [] prev [] [] \<noteq> None)"
| "testRe re prev (c # cs) =
     (matchItems re (c # cs) 0 (c # cs) prev [] [] \<noteq> None \<or> testRe re (Some c) cs)"

text \<open>
  \<open>s.split(/re/)\<close> for an expression with the capture groups \<open>gs\<close>: the pieces
  between the matches, each match leaving its groups between two pieces. \<open>piece\<close> is
  the piece being collected. A match that is empty and stands at the start of the
  piece does not split.
\<close>

function splitFrom ::
  "item list \<Rightarrow> nat list \<Rightarrow> nat option \<Rightarrow> jsstring \<Rightarrow> jsstring \<Rightarrow> jsstring list" where
  "splitFrom re gs prev piece [] = [piece]"
| "splitFrom re gs prev piece (c # cs) =
     (case matchItems re (c # cs) 0 (c # cs) prev [] [] of
        None \<Rightarrow> splitFrom re gs (Some c) (piece @ [c]) cs
      | Some (n, caps) \<Rightarrow>
          if n = 0 \<and> piece = [] then splitFrom re gs (Some c) (piece @ [c]) cs
          else piece # map (\<lambda>g. case map_of caps g of None \<Rightarrow> [] | Some t \<Rightarrow> t) gs @
               (if n = 0 then splitFrom re gs prev [] (c # cs)
                else splitFrom re gs (Some ((c # cs) ! (n - 1))) [] (drop (n - 1) cs)))"
  by pat_completeness auto
termination
  by (relation "measures [\<lambda>(re, gs, prev, piece, s). length s,
                          \<lambda>(re, gs, prev, piece, s). if piece = [] then 0 else 1]") auto

definition splitRe :: "item list \<Rightarrow> nat list \<Rightarrow> jsstring \<Rightarrow> jsstring list" where
  "splitRe re gs s =
     (if s = [] then (if matchItems re [] 0 [] None [] [] = None then [[]] else [])
      else splitFrom re gs None [] s)"

text \<open>\<open>/html\s*$/g\<close> and \<open>/^\s*html\s*/g\<close>\<close>

definition re_html_end :: "item list" where
  "re_html_end = [Lit html, ws0, Eoi]"

definition re_start_html :: "item list" where
  "re_start_html = [Boi, ws0, Lit html, ws0]"

text \<open>\<open>/(<h[1-6][^>]*>.*?<\/h[1-6]>)/\<close>, \<open>/<[^>]*>/g\<close>, \<open>/^\d+\./\<close> and
  \<open>/<h[1-6][^>]*>(\d+\.)(.*?)<\/h[1-6]>/\<close>\<close>

definition h16 :: item where
  "h16 = Rep (\<lambda>c. 49 \<le> c \<and> c \<le> 54) 1 (Some 1) True"

definition notGt :: item where
  "notGt = Rep (\<lambda>c. c \<noteq> 62) 0 None True"

definition re_header :: "item list" where
  "re_header =
     [Open 1, Lit (str ''<h''), h16, notGt, Lit (str ''>''), Rep isDot 0 None False,
      Lit (str ''</h''), h16, Lit (str ''>''), Close 1]"

definition re_tag :: "item list" where
  "re_tag = [Lit (str ''<''), notGt, Lit (str ''>'')]"

definition re_numbered :: "item list" where
  "re_numbered = [Boi, Rep isDigit 1 None True, Lit (str ''.'')]"

definition re_numbered_header :: "item list" where
  "re_numbered_header =
     [Lit (str ''<h''), h16, notGt, Lit (str ''>''),
      Open 1, Rep isDigit 1 None True, Lit (str ''.''), Close 1,
      Open 2, Rep isDot 0 None False, Close 2,
      Lit (str ''</h''), h16, Lit (str ''>'')]"

text \<open>The decimal digits of a number, as the template literal prints it.\<close>

function decimal :: "nat \<Rightarrow> jsstring" where
  "decimal n = (if n < 10 then [48 + n] else decimal (n div 10) @ [48 + n mod 10])"
  by pat_completeness auto
termination
  by (relation "measure id") auto

declare decimal.simps [simp del]

text \<open>
  The first loop of \<open>cleanupAccumulatedContent\<close>: the pieces at even positions with
  the piece that follows each. \<open>seen\<close> is the \<open>Map\<close>, in the order of insertion.
\<close>

fun uniqueSections ::
  "jsstring list \<Rightarrow> (jsstring \<times> jsstring) list \<Rightarrow> (jsstring \<times> jsstring) list" where
  "uniqueSections [] seen = seen"
| "uniqueSections (header # others) seen =
     (let content = (case others of [] \<Rightarrow> [] | c # _ \<Rightarrow> c);
          seen' =
            (if header \<noteq> [] \<and> trim header \<noteq> []
             then (let headerText = trim (replaceAll re_tag [] None header)
                   in if map_of seen headerText = None
                      then seen @ [(headerText, header @ content)]
                      else seen)
             else seen)
      in uniqueSections (drop 1 others) seen')"

text \<open>The second loop: the sections are put together again, the numbered ones renumbered.\<close>

fun rebuildSections :: "(jsstring \<times> jsstring) list \<Rightarrow> nat \<Rightarrow> jsstring \<Rightarrow> jsstring" where
  "rebuildSections [] sectionNumber finalContent = finalContent"
| "rebuildSections ((headerText, sectionContent) # others) sectionNumber finalContent =
     (if testRe re_numbered None headerText
      then rebuildSections others (sectionNumber + 1)
             (finalContent @
              replaceFirst re_numbered_header
                [T (str ''<h2>'' @ decimal sectionNumber @ str ''.''), G 2, T (str ''</h2>'')]
                None sectionContent)
      else rebuildSections others sectionNumber (finalContent @ sectionContent))"

definition cleanupAccumulatedContent :: "jsstring \<Rightarrow> jsstring" where
  "cleanupAccumulatedContent content =
    (let cleanedContent = replaceAll re_html_html [T html] None content;
         cleanedContent = replaceAll re_html_nl_html [T html] None cleanedContent;
         cleanedContent = replaceAll re_html_nl_nl_html [T html] None cleanedContent;
         cleanedContent = replaceAll re_text_html_end [G 1] None cleanedContent;
         cleanedContent = replaceAll re_html_end [] None cleanedContent;
         cleanedContent = replaceAll re_start_html [] None cleanedContent;
         cleanedContent = trim cleanedContent;
         sections = splitRe re_header [1] cleanedContent;
         finalContent = rebuildSections (uniqueSections sections []) 1 [];
         finalContent = replaceAll re_html_html [T html] None finalContent;
         finalContent = replaceAll re_html_nl_html [T html] None finalContent;
         finalContent = replaceAll re_text_html_end [G 1] None finalContent
     in trim finalContent)"

text \<open>
  The expressions of \<open>convertToPlainText\<close>: \<open>/\*\*(.*?)\*\*/g\<close>, \<open>/\*(.*?)\*/g\<close>,
  \<open>/`(.*?)`/g\<close>, and under the flags gm \<open>/^# (.*$)/\<close>, \<open>/^## (.*$)/\<close>, \<open>/^### (.*$)/\<close>,
  \<open>/^- (.*$)/\<close> and \<open>/^\d+\. (.*$)/\<close>.
\<close>

definition re_between :: "jsstring \<Rightarrow> item list" where
  "re_between d = [Lit d, Open 1, Rep isDot 0 None False, Close 1, Lit d]"

definition re_line :: "item list \<Rightarrow> item list" where
  "re_line pre = Bol # pre @ [Open 1, Rep isDot 0 None True, Eol, Close 1]"

text \<open>
  The text that the list rule puts before the item, as the source file has it: the
  code units U+00E2, U+20AC and U+00A2, and a space.
\<close>

definition bullet :: jsstring where
  "bullet = [226, 8364, 162, 32]"

definition convertToPlainText :: "platform \<Rightarrow> jsstring \<Rightarrow> jsstring" where
  "convertToPlainText P rawText =
    (let decoded = decodeHtmlEntities P rawText;
         cleaned = replaceAll re_html_html [T html] None decoded;
         cleaned = replaceAll re_html_nl_html [T html] None cleaned;
         cleaned = replaceAll re_text_html_end [G 1] None cleaned;
         cleaned = trim cleaned;
         cleaned = replaceAll (re_between (str ''**'')) [G 1] None cleaned;
         cleaned = replaceAll (re_between (str ''*'')) [G 1] None cleaned;
         cleaned = replaceAll (re_between (str ''`'')) [G 1] None cleaned;
         cleaned = replaceAll (re_line [Lit (str ''# '')]) [G 1] None cleaned;
         cleaned = replaceAll (re_line [Lit (str ''## '')]) [G 1] None cleaned;
         cleaned = replaceAll (re_line [Lit (str ''### '')]) [G 1] None cleaned;
         cleaned = replaceAll (re_line [Lit (str ''- '')]) [T bullet, G 1] None cleaned;
         cleaned = replaceAll (re_line [Rep isDigit 1 None True, Lit (str ''. '')]) [G 1] None cleaned
     in cleaned)"

definition accumulateStreamingContent :: "platform \<Rightarrow> jsstring \<Rightarrow> jsstring \<Rightarrow> jsstring" where
  "accumulateStreamingContent P newText accumulatedContent =
    (if accumulatedContent = [] then convertToPlainText P newText
     else (let combinedText = accumulatedContent @ [10] @ newText
           in convertToPlainText P combinedText))"

section \<open>Reading a parsed value\<close>

text \<open>Whether a value counts as true in a condition.\<close>

fun truthy :: "json \<Rightarrow> bool" where
  "truthy JNull = False"
| "truthy (JBool b) = b"
| "truthy (JNum n) = (n \<noteq> str ''0'')"
| "truthy (JStr t) = (t \<noteq> [])"
| "truthy (JArr vs) = True"
| "truthy (JObj ms) = True"

text \<open>
  \<open>v.key\<close> for a value other than \<open>null\<close> and one of the keys the program reads
  (\<open>text\<close>, \<open>candidates\<close>, \<open>content\<close>, \<open>parts\<close>): the member of an object, the last one
  when the text repeated the key; \<open>None\<close> is \<open>undefined\<close>, which every other kind of
  value gives.
\<close>

fun getProp :: "json \<Rightarrow> jsstring \<Rightarrow> json option" where
  "getProp (JObj ms) key = map_of (rev ms) key"
| "getProp v key = None"

text \<open>
  The conversion to a string that assigning to \<open>innerHTML\<close> and the operator \<open>+\<close>
  perform; \<open>None\<close> is the TypeError of an object whose own \<open>toString\<close> member is in the
  way. An array joins its elements with commas, \<open>null\<close> elements as empty strings.
\<close>

fun joinWith :: "jsstring \<Rightarrow> jsstring option list \<Rightarrow> jsstring option" where
  "joinWith sep [] = Some []"
| "joinWith sep [x] = x"
| "joinWith sep (x # y # ys) =
     (case x of
        None \<Rightarrow> None
      | Some a \<Rightarrow> (case joinWith sep (y # ys) of None \<Rightarrow> None | Some b \<Rightarrow> Some (a @ sep @ b)))"

fun toStr :: "json \<Rightarrow> jsstring option" where
  "toStr JNull = Some (str ''null'')"
| "toStr (JBool b) = Some (if b then str ''true'' else str ''false'')"
| "toStr (JNum n) = Some n"
| "toStr (JStr t) = Some t"
| "toStr (JArr vs) =
     joinWith (str '','') (map (\<lambda>v. if v = JNull then Some [] else toStr v) vs)"
| "toStr (JObj ms) =
     (if map_of ms (str ''toString'') = None then Some (str ''[object Object]'') else None)"

section \<open>The session\<close>

text \<open>
  What the caller observes: the calls of \<open>onData\<close> (text and final tag), of \<open>onError\<close>
  and of \<open>onComplete\<close>, in their order.
\<close>

datatype readError = AbortError | OtherError

datatype callback = OnData jsstring bool | OnError readError | OnComplete

text \<open>
  The state of one call of \<open>streamContract\<close>: its three buffers, the state of the
  cancellation signal, the calls made so far and the objects whose parse failure was
  reported on the console.
\<close>

record session =
  buffer :: jsstring
  accumulatedContent :: jsstring
  incompleteJsonBuffer :: jsstring
  aborted :: bool
  calls :: "callback list"
  failures :: "jsstring list"

text \<open>
  The callbacks are the caller's. All the model needs of them is whether a call
  triggers the caller's cancellation handle, which is the parameter \<open>cancels\<close> of the
  functions below; the callbacks are taken to return normally.
\<close>

definition invoke :: "(callback \<Rightarrow> bool) \<Rightarrow> callback \<Rightarrow> session \<Rightarrow> session" where
  "invoke cancels c st = st\<lparr>calls := calls st @ [c], aborted := (aborted st \<or> cancels c)\<rparr>"

text \<open>What is done with one extracted text, in both shapes of a response.\<close>

definition emitText ::
  "platform \<Rightarrow> (callback \<Rightarrow> bool) \<Rightarrow> jsstring \<Rightarrow> session \<Rightarrow> session" where
  "emitText P cancels text st =
    (let formattedContent = processTextContent P text (accumulatedContent st)
     in if formattedContent \<noteq> []
        then (let st1 = st\<lparr>accumulatedContent := formattedContent\<rparr>;
                  plainTextContent = accumulateStreamingContent P text (accumulatedContent st1)
              in if plainTextContent \<noteq> []
                 then invoke cancels (OnData plainTextContent False) st1
                 else st1)
        else st)"

text \<open>
  A statement inside the \<open>try\<close> block either completes or throws; the state it has
  reached stays in both cases.
\<close>

datatype completion = Normal session | Thrown session

fun processParts ::
  "platform \<Rightarrow> (callback \<Rightarrow> bool) \<Rightarrow> json list \<Rightarrow> session \<Rightarrow> completion" where
  "processParts P cancels [] st = Normal st"
| "processParts P cancels (part # parts) st =
     (if part = JNull then Thrown st
      else (case getProp part (str ''text'') of
              None \<Rightarrow> processParts P cancels parts st
            | Some t \<Rightarrow>
                if truthy t
                then (case toStr t of
                        None \<Rightarrow> Thrown st
                      | Some text \<Rightarrow> processParts P cancels parts (emitText P cancels text st))
                else processParts P cancels parts st))"

fun processCandidates ::
  "platform \<Rightarrow> (callback \<Rightarrow> bool) \<Rightarrow> json list \<Rightarrow> session \<Rightarrow> completion" where
  "processCandidates P cancels [] st = Normal st"
| "processCandidates P cancels (candidate # candidates) st =
     (if candidate = JNull then Thrown st
      else (case getProp candidate (str ''content'') of
              None \<Rightarrow> processCandidates P cancels candidates st
            | Some content \<Rightarrow>
                if \<not> truthy content then processCandidates P cancels candidates st
                else (case getProp content (str ''parts'') of
                        None \<Rightarrow> processCandidates P cancels candidates st
                      | Some parts \<Rightarrow>
                          if \<not> truthy parts then processCandidates P cancels candidates st
                          else (case parts of
                                  JArr ps \<Rightarrow>
                                    (case processParts P cancels ps st of
                                       Thrown st' \<Rightarrow> Thrown st'
                                     | Normal st' \<Rightarrow> processCandidates P cancels candidates st')
                                | JStr t \<Rightarrow> processCandidates P cancels candidates st
                                | _ \<Rightarrow> Thrown st))))"

definition handleParsed ::
  "platform \<Rightarrow> (callback \<Rightarrow> bool) \<Rightarrow> json \<Rightarrow> session \<Rightarrow> completion" where
  "handleParsed P cancels parsed st =
    (case (if truthy parsed then getProp parsed (str ''text'') else None) of
       Some (JStr text) \<Rightarrow> Normal (emitText P cancels text st)
     | _ \<Rightarrow>
         if parsed = JNull then Thrown st
         else (case getProp parsed (str ''candidates'') of
                 Some (JArr candidates) \<Rightarrow> processCandidates P cancels candidates st
               | _ \<Rightarrow> Normal st))"

text \<open>
  The scan that counts braces: \<open>inString\<close> and \<open>escapeNext\<close> are its two flags, the
  result is \<open>braceCount\<close> after the last code unit.
\<close>

fun scanBraces :: "jsstring \<Rightarrow> bool \<Rightarrow> bool \<Rightarrow> int \<Rightarrow> int" where
  "scanBraces [] inString escapeNext braceCount = braceCount"
| "scanBraces (c # cs) inString escapeNext braceCount =
     (if escapeNext then scanBraces cs inString False braceCount
      else if c = 92 then scanBraces cs inString True braceCount
      else if c = 34 then scanBraces cs (\<not> inString) escapeNext braceCount
      else if \<not> inString
           then scanBraces cs inString escapeNext
                  (if c = 123 then braceCount + 1
                   else if c = 125 then braceCount - 1 else braceCount)
           else scanBraces cs inString escapeNext braceCount)"

definition countBraces :: "jsstring \<Rightarrow> int" where
  "countBraces jsonData = scanBraces jsonData False False 0"

text \<open>
  The \<open>try\<close> statement for an object whose braces balance: what the \<open>catch\<close> clause
  does, for a refusal of the parser as for a TypeError while the value is read, is to
  report the object on the console.
\<close>

definition parseComplete ::
  "platform \<Rightarrow> (callback \<Rightarrow> bool) \<Rightarrow> session \<Rightarrow> jsstring \<Rightarrow> session" where
  "parseComplete P cancels st jsonData =
    (case JSON_parse P jsonData of
       None \<Rightarrow> st\<lparr>failures := failures st @ [jsonData]\<rparr>
     | Some parsed \<Rightarrow>
         (case handleParsed P cancels parsed st of
            Normal st2 \<Rightarrow> st2
          | Thrown st2 \<Rightarrow> st2\<lparr>failures := failures st2 @ [jsonData]\<rparr>))"

text \<open>The body of the loop over the lines of a chunk.\<close>

definition processLine ::
  "platform \<Rightarrow> (callback \<Rightarrow> bool) \<Rightarrow> session \<Rightarrow> jsstring \<Rightarrow> session" where
  "processLine P cancels st line =
    (if startsWith line (str ''data: '')
     then (let data = trim (drop 6 line)
           in if data = str ''[DONE]'' then st
              else if data = [] then st
              else (let jsonData =
                          (if incompleteJsonBuffer st \<noteq> [] then incompleteJsonBuffer st @ data
                           else data);
                        st1 = st\<lparr>incompleteJsonBuffer := []\<rparr>
                    in if startsWith jsonData (str ''{'')
                       then (if countBraces jsonData = 0
                             then parseComplete P cancels st1 jsonData
                             else st1\<lparr>incompleteJsonBuffer := jsonData\<rparr>)
                       else st1))
     else st)"

text \<open>\<open>processBufferContent\<close>, for what is left in the line buffer when the stream ends.\<close>

definition processBufferContent :: "platform \<Rightarrow> jsstring \<Rightarrow> jsstring \<Rightarrow> jsstring" where
  "processBufferContent P buf acc =
    (if trim buf = [] then acc
     else (case JSON_parse P buf of
             None \<Rightarrow> acc @ formatTextContent P buf
           | Some parsed \<Rightarrow>
               (case (if truthy parsed then getProp parsed (str ''text'') else None) of
                  Some (JStr text) \<Rightarrow> acc @ formatTextContent P text
                | _ \<Rightarrow> acc)))"

text \<open>The branch taken when the reader reports the end of the stream.\<close>

definition finish :: "platform \<Rightarrow> (callback \<Rightarrow> bool) \<Rightarrow> session \<Rightarrow> session" where
  "finish P cancels st =
    (let st1 =
           (if trim (buffer st) \<noteq> []
            then (let finalContent = processBufferContent P (buffer st) (accumulatedContent st)
                  in if finalContent \<noteq> [] then st\<lparr>accumulatedContent := finalContent\<rparr> else st)
            else st);
         st2 =
           (if accumulatedContent st1 \<noteq> []
            then (let cleanedContent = cleanupAccumulatedContent (accumulatedContent st1);
                      finalPlainText = convertToPlainText P cleanedContent
                  in invoke cancels (OnData finalPlainText True) st1)
            else st1)
     in invoke cancels OnComplete st2)"

text \<open>
  What \<open>reader.read()\<close> gives: a chunk of decoded text, the end of the stream, or a
  rejection. A cancellation that arrives while the read is pending rejects it with an
  \<open>AbortError\<close>; so does a failing request, which the same handler catches.
\<close>

datatype read = Chunk jsstring | Done | Failed readError

text \<open>
  What is done with a chunk: it is added to the line buffer, the complete lines are
  processed in their order and the text behind the last line feed stays in the buffer.
\<close>

definition processChunk ::
  "platform \<Rightarrow> (callback \<Rightarrow> bool) \<Rightarrow> session \<Rightarrow> jsstring \<Rightarrow> session" where
  "processChunk P cancels st chunk =
    (let lines = splitOn 10 (buffer st @ chunk);
         st1 = st\<lparr>buffer := last lines\<rparr>
     in foldl (processLine P cancels) st1 (butlast lines))"

text \<open>
  The read loop, over the results of the successive reads. When the list ends the
  session is waiting for a read that has not come back.
\<close>

fun readLoop ::
  "platform \<Rightarrow> (callback \<Rightarrow> bool) \<Rightarrow> session \<Rightarrow> read list \<Rightarrow> session" where
  "readLoop P cancels st [] = st"
| "readLoop P cancels st (r # rs) =
     (if aborted st then st
      else (case r of
              Done \<Rightarrow> finish P cancels st
            | Failed e \<Rightarrow> if e = AbortError then st else invoke cancels (OnError e) st
            | Chunk chunk \<Rightarrow> readLoop P cancels (processChunk P cancels st chunk) rs))"

definition start :: session where
  "start = \<lparr>buffer = [], accumulatedContent = [], incompleteJsonBuffer = [],
            aborted = False, calls = [], failures = []\<rparr>"

text \<open>The calls of \<open>onData\<close> by their tag.\<close>

fun isFinal :: "callback \<Rightarrow> bool" where
  "isFinal (OnData t final) = final"
| "isFinal c = False"

fun isNonFinal :: "callback \<Rightarrow> bool" where
  "isNonFinal (OnData t final) = (\<not> final)"
| "isNonFinal c = False"

definition streamContract :: "platform \<Rightarrow> (callback \<Rightarrow> bool) \<Rightarrow> read list \<Rightarrow> session" where
  "streamContract P cancels reads = readLoop P cancels start reads"

section \<open>A reference platform\<close>

text \<open>
  The concrete runs below need a concrete platform. Its parser follows the JSON
  grammar: white space, the three literals, numbers, strings with their escapes, arrays
  and objects. \<open>fuel\<close> bounds the number of nested calls; the parser is given twice
  the length of the text and two more. A number is kept as the text wrote it, which is how
  it prints for the integers below sixteen digits other than \<open>-0\<close>. The entity decoding
  of a text that holds no ampersand, carriage return or NUL is the text itself; the runs
  use no other text.
\<close>

definition isJsonWs :: "nat \<Rightarrow> bool" where
  "isJsonWs c = (c = 32 \<or> c = 9 \<or> c = 10 \<or> c = 13)"

definition hexVal :: "nat \<Rightarrow> nat option" where
  "hexVal c =
     (if 48 \<le> c \<and> c \<le> 57 then Some (c - 48)
      else if 97 \<le> c \<and> c \<le> 102 then Some (c - 87)
      else if 65 \<le> c \<and> c \<le> 70 then Some (c - 55)
      else None)"

fun parseString :: "jsstring \<Rightarrow> jsstring \<Rightarrow> (jsstring \<times> jsstring) option" where
  "parseString [] acc = None"
| "parseString [c] acc = (if c = 34 then Some (acc, []) else None)"
| "parseString (c # e # es) acc =
     (if c = 34 then Some (acc, e # es)
      else if c = 92
      then (if e = 34 \<or> e = 92 \<or> e = 47 then parseString es (acc @ [e])
            else if e = 98 then parseString es (acc @ [8])
            else if e = 102 then parseString es (acc @ [12])
            else if e = 110 then parseString es (acc @ [10])
            else if e = 114 then parseString es (acc @ [13])
            else if e = 116 then parseString es (acc @ [9])
            else if e = 117
            then (case map hexVal (take 4 es) of
                    [Some h1, Some h2, Some h3, Some h4] \<Rightarrow>
                      parseString (drop 4 es) (acc @ [((h1 * 16 + h2) * 16 + h3) * 16 + h4])
                  | _ \<Rightarrow> None)
            else None)
      else if c < 32 then None
      else parseString (e # es) (acc @ [c]))"

definition digitsOf :: "jsstring \<Rightarrow> nat" where
  "digitsOf s = length (takeWhile isDigit s)"

definition numberLength :: "jsstring \<Rightarrow> nat option" where
  "numberLength s =
    (let sign = (if startsWith s (str ''-'') then 1 else 0);
         s1 = drop sign s;
         whole = (if startsWith s1 (str ''0'') then 1 else digitsOf s1);
         s2 = drop whole s1;
         frac = (if startsWith s2 (str ''.'') then 1 + digitsOf (drop 1 s2) else 0);
         s3 = drop frac s2;
         esign = (if startsWith s3 (str ''e'') \<or> startsWith s3 (str ''E'')
                  then (if startsWith (drop 1 s3) (str ''+'') \<or> startsWith (drop 1 s3) (str ''-'')
                        then 2 else 1)
                  else 0);
         expo = (if esign = 0 then 0 else esign + digitsOf (drop esign s3))
     in if whole = 0 \<or> frac = 1 \<or> (esign \<noteq> 0 \<and> expo = esign) then None
        else Some (sign + whole + frac + expo))"

fun parseValue :: "jsstring \<Rightarrow> jsstring \<Rightarrow> (json \<times> jsstring) option"
and parseElements :: "jsstring \<Rightarrow> jsstring \<Rightarrow> json list \<Rightarrow> (json \<times> jsstring) option"
and parseMembers :: "jsstring \<Rightarrow> jsstring \<Rightarrow> (jsstring \<times> json) list \<Rightarrow> (json \<times> jsstring) option"
where
  "parseValue [] s = None"
| "parseValue (f # fuel) s =
     (case dropWhile isJsonWs s of
        [] \<Rightarrow> None
      | c # cs \<Rightarrow>
          if c = 123
          then (case dropWhile isJsonWs cs of
                  [] \<Rightarrow> None
                | d # ds \<Rightarrow> if d = 125 then Some (JObj [], ds) else parseMembers fuel (d # ds) [])
          else if c = 91
          then (case dropWhile isJsonWs cs of
                  [] \<Rightarrow> None
                | d # ds \<Rightarrow> if d = 93 then Some (JArr [], ds) else parseElements fuel (d # ds) [])
          else if c = 34
          then (case parseString cs [] of None \<Rightarrow> None | Some (t, r) \<Rightarrow> Some (JStr t, r))
          else if startsWith (c # cs) (str ''true'') then Some (JBool True, drop 3 cs)
          else if startsWith (c # cs) (str ''false'') then Some (JBool False, drop 4 cs)
          else if startsWith (c # cs) (str ''null'') then Some (JNull, drop 3 cs)
          else (case numberLength (c # cs) of
                  None \<Rightarrow> None
                | Some n \<Rightarrow> Some (JNum (take n (c # cs)), drop n (c # cs))))"
| "parseElements [] s acc = None"
| "parseElements (f # fuel) s acc =
     (case parseValue fuel s of
        None \<Rightarrow> None
      | Some (v, r) \<Rightarrow>
          (case dropWhile isJsonWs r of
             [] \<Rightarrow> None
           | c # cs \<Rightarrow>
               if c = 44 then parseElements fuel cs (acc @ [v])
               else if c = 93 then Some (JArr (acc @ [v]), cs)
               else None))"
| "parseMembers [] s acc = None"
| "parseMembers (f # fuel) s acc =
     (case dropWhile isJsonWs s of
        [] \<Rightarrow> None
      | q # qs \<Rightarrow>
          if q \<noteq> 34 then None
          else (case parseString qs [] of
                  None \<Rightarrow> None
                | Some (key, r) \<Rightarrow>
                    (case dropWhile isJsonWs r of
                       [] \<Rightarrow> None
                     | c # cs \<Rightarrow>
                         if c \<noteq> 58 then None
                         else (case parseValue fuel cs of
                                 None \<Rightarrow> None
                               | Some (v, r') \<Rightarrow>
                                   (case dropWhile isJsonWs r' of
                                      [] \<Rightarrow> None
                                    | c' # cs' \<Rightarrow>
                                        if c' = 44 then parseMembers fuel cs' (acc @ [(key, v)])
                                        else if c' = 125 then Some (JObj (acc @ [(key, v)]), cs')
                                        else None)))))"

definition parseJson :: "jsstring \<Rightarrow> json option" where
  "parseJson s =
     (case parseValue (s @ s @ [0, 0]) s of
        None \<Rightarrow> None
      | Some (v, r) \<Rightarrow> if dropWhile isJsonWs r = [] then Some v else None)"

definition refPlatform :: platform where
  "refPlatform = \<lparr>JSON_parse = parseJson, decodeHtmlEntities = (\<lambda>text. text)\<rparr>"

section \<open>A relation between states\<close>

text \<open>
  \<open>quietStep st st'\<close>: from \<open>st\<close> to \<open>st'\<close> the cancellation signal has kept its state
  and the only calls made are calls of \<open>onData\<close> without the final tag.
\<close>

definition quietStep :: "session \<Rightarrow> session \<Rightarrow> bool" where
  "quietStep st st' \<longleftrightarrow>
     aborted st' = aborted st \<and> (\<exists>xs. calls st' = calls st @ xs \<and> list_all isNonFinal xs)"

text \<open>
  \<open>advance cancels st st'\<close>: from \<open>st\<close> to \<open>st'\<close> the only calls made are calls of
  \<open>onData\<close> without the final tag, and the signal is aborted in \<open>st'\<close> when it was in
  \<open>st\<close> or one of these calls has triggered the caller's cancellation handle.
  \<open>cancelInv cancels st\<close>: the signal is aborted exactly when a call made so far has
  triggered the handle, and behind a call of \<open>onData\<close> without the final tag that has
  triggered it there are only calls of \<open>onData\<close> without the final tag.
\<close>

definition advance :: "(callback \<Rightarrow> bool) \<Rightarrow> session \<Rightarrow> session \<Rightarrow> bool" where
  "advance cancels st st' \<longleftrightarrow>
     (\<exists>xs. calls st' = calls st @ xs \<and> list_all isNonFinal xs \<and>
           aborted st' = (aborted st \<or> list_ex cancels xs))"

definition cancelInv :: "(callback \<Rightarrow> bool) \<Rightarrow> session \<Rightarrow> bool" where
  "cancelInv cancels st \<longleftrightarrow>
     aborted st = list_ex cancels (calls st) \<and>
     (\<forall>pre c post. calls st = pre @ c # post \<and> cancels c \<and> isNonFinal c \<longrightarrow>
        list_all isNonFinal post)"

text \<open>A text in which no two neighbours are both white space.\<close>

fun noAdjacentSpaces :: "jsstring \<Rightarrow> bool" where
  "noAdjacentSpaces [] = True"
| "noAdjacentSpaces [c] = True"
| "noAdjacentSpaces (c # d # s) = ((\<not> isSpace c \<or> \<not> isSpace d) \<and> noAdjacentSpaces (d # s))"

section \<open>Unfolding the definitions on a concrete input\<close>

lemmas char_defs = isLineTerminator_def isSpace_def isLetter_def isDigit_def isDot_def
lemmas re_defs = html_def ws0_def re_html_html_def re_html_nl_html_def re_html_nl_nl_html_def
  re_text_html_end_def re_nl3_def re_ws2_def re_html_end_def re_start_html_def h16_def notGt_def
  re_header_def re_tag_def re_numbered_def re_numbered_header_def re_between_def re_line_def bullet_def
lemmas fmt_defs = trim_def formatTextContent_def processTextContent_def splitRe_def
  cleanupAccumulatedContent_def convertToPlainText_def accumulateStreamingContent_def decimal.simps
lemmas json_defs = isJsonWs_def hexVal_def digitsOf_def numberLength_def parseJson_def refPlatform_def
lemmas session_defs = invoke_def emitText_def handleParsed_def countBraces_def parseComplete_def
  processLine_def
  processBufferContent_def finish_def start_def streamContract_def processChunk_def
lemmas run_defs = char_defs re_defs fmt_defs json_defs session_defs Let_def

section \<open>The accumulation\<close>

text \<open>\<open>includesStr\<close> is the substring test.\<close>

lemma startsWith_iff: "startsWith s p \<longleftrightarrow> (\<exists>b. s = p @ b)"
  by (induction s p rule: startsWith.induct) auto

lemma includesStr_iff: "includesStr s p \<longleftrightarrow> (\<exists>a b. s = a @ p @ b)"
proof (induction s)
  case Nil
  then show ?case by auto
next
  case (Cons c cs)
  show ?case
  proof
    assume "includesStr (c # cs) p"
    then consider "startsWith (c # cs) p" | "includesStr cs p" by auto
    then show "\<exists>a b. c # cs = a @ p @ b"
    proof cases
      case 1
      then obtain b where "c # cs = p @ b" by (auto simp: startsWith_iff)
      then have "c # cs = [] @ p @ b" by simp
      then show ?thesis by blast
    next
      case 2
      then obtain a b where "cs = a @ p @ b" using Cons.IH by blast
      then have "c # cs = (c # a) @ p @ b" by simp
      then show ?thesis by blast
    qed
  next
    assume "\<exists>a b. c # cs = a @ p @ b"
    then obtain a b where ab: "c # cs = a @ p @ b" by blast
    show "includesStr (c # cs) p"
    proof (cases a)
      case Nil
      with ab have "startsWith (c # cs) p" by (auto simp: startsWith_iff)
      then show ?thesis by simp
    next
      case (Cons a0 a')
      with ab have "cs = a' @ p @ b" by simp
      then have "includesStr cs p" using Cons.IH by blast
      then show ?thesis by simp
    qed
  qed
qed

lemma processTextContent_duplicate:
  "includesStr acc (formatTextContent P text) \<Longrightarrow> processTextContent P text acc = acc"
  by (cases acc) (auto simp: processTextContent_def Let_def)

lemma processTextContent_includes:
  "includesStr (processTextContent P text acc) (formatTextContent P text)"
proof -
  have a: "includesStr (formatTextContent P text) (formatTextContent P text)"
    unfolding includesStr_iff by (metis append_Nil append_Nil2)
  have b: "includesStr (acc @ formatTextContent P text) (formatTextContent P text)"
    unfolding includesStr_iff by (metis append_Nil2)
  show ?thesis using a b by (simp add: processTextContent_def Let_def)
qed

lemma accumulatedContent_invoke [simp]:
  "accumulatedContent (invoke cancels c st) = accumulatedContent st"
  by (simp add: invoke_def)

lemma accumulatedContent_emitText:
  "accumulatedContent (emitText P cancels text st) =
     (if processTextContent P text (accumulatedContent st) \<noteq> []
      then processTextContent P text (accumulatedContent st) else accumulatedContent st)"
  by (simp add: emitText_def Let_def)

lemma emitText_includes:
  "includesStr (accumulatedContent (emitText P cancels text st)) (formatTextContent P text)"
proof (cases "processTextContent P text (accumulatedContent st) = []")
  case True
  have "includesStr (processTextContent P text (accumulatedContent st)) (formatTextContent P text)"
    by (rule processTextContent_includes)
  with True have "formatTextContent P text = []" by simp
  moreover have "includesStr s []" for s by (cases s) auto
  ultimately show ?thesis by simp
next
  case False
  then show ?thesis
    by (simp add: accumulatedContent_emitText processTextContent_includes)
qed

text \<open>
  C4. When the formatted text of a fragment already occurs in the accumulation as a
  contiguous block, processing the fragment leaves the accumulation as it is; and
  processing the same fragment a second time in a row leaves the accumulation as the
  first time left it.
\<close>

theorem duplicate_fragment_keeps_accumulation:
  "((\<exists>a b. accumulatedContent st = a @ formatTextContent P text @ b) \<longrightarrow>
      accumulatedContent (emitText P cancels text st) = accumulatedContent st) \<and>
   accumulatedContent (emitText P cancels text (emitText P cancels text st)) =
     accumulatedContent (emitText P cancels text st)"
proof -
  have keep: "accumulatedContent (emitText P cancels text s) = accumulatedContent s"
    if "includesStr (accumulatedContent s) (formatTextContent P text)" for s
    using that by (simp add: accumulatedContent_emitText processTextContent_duplicate)
  show ?thesis
    using keep [of st] keep [of "emitText P cancels text st"]
      emitText_includes [of P cancels "text" st]
    by (simp add: includesStr_iff)
qed

theorem duplicate_fragment_keeps_accumulation_witness:
  \<open>(\<exists>a b. accumulatedContent (start\<lparr>accumulatedContent := str ''ab''\<rparr>) =
            a @ formatTextContent refPlatform (str ''b '') @ b) \<and>
   accumulatedContent (emitText refPlatform (\<lambda>c. False) (str ''b '')
      (start\<lparr>accumulatedContent := str ''ab''\<rparr>)) = str ''ab''\<close>
proof -
  have f: "formatTextContent refPlatform (str ''b '') = str ''b''"
    by (simp add: run_defs)
  have "accumulatedContent (start\<lparr>accumulatedContent := str ''ab''\<rparr>) =
          str ''a'' @ formatTextContent refPlatform (str ''b '') @ []"
    using f by (simp add: start_def)
  then have h: "\<exists>a b. accumulatedContent (start\<lparr>accumulatedContent := str ''ab''\<rparr>) =
                  a @ formatTextContent refPlatform (str ''b '') @ b"
    by blast
  from duplicate_fragment_keeps_accumulation
    [of "start\<lparr>accumulatedContent := str ''ab''\<rparr>" refPlatform "str ''b ''" "\<lambda>c. False"] h
  show ?thesis using f by (simp add: start_def)
qed

section \<open>The cleaning of a fragment\<close>

text \<open>
  C9. \<open>formatTextContent\<close> is to turn three or more line feeds into two and to
  leave two line feeds as they are. It does not: the class \<open>\s\<close> of the replacement
  that follows holds the line feed, so the two line feeds that the first replacement
  has produced, and two line feeds of the text itself, become one space.
\<close>

theorem formatTextContent_collapses_newlines:
  \<open>formatTextContent refPlatform (str ''a\<newline>\<newline>\<newline>b'') = str ''a b'' \<and>
   formatTextContent refPlatform (str ''a\<newline>\<newline>b'') = str ''a b''\<close>
  by (simp add: run_defs)

text \<open>
  The same for every text and every platform: what \<open>formatTextContent\<close> returns has no
  two white space characters side by side, so it never holds two line feeds in a row.
\<close>

lemma match_ws2:
  "matchItems re_ws2 orig 0 s prev [] [] =
     (if 2 \<le> length (takeWhile isSpace s) then Some (length (takeWhile isSpace s), []) else None)"
proof (cases "2 \<le> length (takeWhile isSpace s)")
  case True
  then have "rev [2..<Suc (length (takeWhile isSpace s))] =
             length (takeWhile isSpace s) # rev [2..<length (takeWhile isSpace s)]"
    by simp
  then show ?thesis using True by (simp add: re_ws2_def Let_def)
next
  case False
  then show ?thesis by (simp add: re_ws2_def Let_def)
qed

lemma replaceAll_ws2_Cons:
  "replaceAll re_ws2 [T [32]] prev (c # cs) =
     (if 2 \<le> length (takeWhile isSpace (c # cs))
      then 32 # replaceAll re_ws2 [T [32]] (Some ((c # cs) ! (length (takeWhile isSpace (c # cs)) - 1)))
                  (drop (length (takeWhile isSpace (c # cs))) (c # cs))
      else c # replaceAll re_ws2 [T [32]] (Some c) cs)"
proof (cases "2 \<le> length (takeWhile isSpace (c # cs))")
  case True
  then obtain m where m: "length (takeWhile isSpace (c # cs)) = Suc (Suc m)"
    by (metis Suc_le_D numeral_2_eq_2 Suc_le_mono)
  have "drop (Suc m) cs = drop (Suc (Suc m)) (c # cs)" by simp
  then show ?thesis using True m by (simp add: match_ws2 del: takeWhile.simps)
next
  case False
  then show ?thesis by (simp add: match_ws2 del: takeWhile.simps)
qed

lemma drop_takeWhile_head:
  "drop (length (takeWhile Q s)) s = dropWhile Q s"
  by (induction s) auto

lemma collapse_shape:
  "noAdjacentSpaces (replaceAll re_ws2 [T [32]] prev s) \<and>
   (s = [] \<or> \<not> isSpace (hd s) \<longrightarrow>
      replaceAll re_ws2 [T [32]] prev s = [] \<or> \<not> isSpace (hd (replaceAll re_ws2 [T [32]] prev s)))"
proof (induction "length s" arbitrary: s prev rule: less_induct)
  case less
  show ?case
  proof (cases s)
    case Nil
    then show ?thesis by (simp add: match_ws2)
  next
    case (Cons c cs)
    let ?n = "length (takeWhile isSpace (c # cs))"
    show ?thesis
    proof (cases "2 \<le> ?n")
      case True
      let ?r = "drop ?n (c # cs)"
      have r: "?r = dropWhile isSpace (c # cs)" by (rule drop_takeWhile_head)
      have c: "isSpace c" using True by (cases "isSpace c") auto
      have len: "length ?r < length s" using True Cons by simp
      have hd: "?r = [] \<or> \<not> isSpace (hd ?r)"
        unfolding r by (metis hd_dropWhile)
      from less [OF len] hd
      have ih: "noAdjacentSpaces (replaceAll re_ws2 [T [32]] p ?r)"
        "replaceAll re_ws2 [T [32]] p ?r = [] \<or> \<not> isSpace (hd (replaceAll re_ws2 [T [32]] p ?r))" for p
        by blast+
      have "noAdjacentSpaces (32 # replaceAll re_ws2 [T [32]] p ?r)" for p
        using ih [of p] by (cases "replaceAll re_ws2 [T [32]] p ?r") auto
      then show ?thesis
        using True c Cons by (simp only: replaceAll_ws2_Cons if_True) simp
    next
      case False
      have len: "length cs < length s" using Cons by simp
      note ih = less [OF len]
      have eq: "replaceAll re_ws2 [T [32]] prev s = c # replaceAll re_ws2 [T [32]] (Some c) cs"
        using False Cons by (simp only: replaceAll_ws2_Cons if_False)
      have nxt: "isSpace c \<Longrightarrow> cs = [] \<or> \<not> isSpace (hd cs)"
        using False by (cases cs) (auto split: if_splits)
      have "noAdjacentSpaces (c # replaceAll re_ws2 [T [32]] (Some c) cs)"
      proof (cases "replaceAll re_ws2 [T [32]] (Some c) cs")
        case Nil
        then show ?thesis by simp
      next
        case (Cons d ds)
        have "noAdjacentSpaces (d # ds)" using ih [of "Some c"] Cons by simp
        moreover have "\<not> isSpace c \<or> \<not> isSpace d"
          using nxt ih [of "Some c"] Cons by auto
        ultimately show ?thesis using Cons by simp
      qed
      then show ?thesis using eq Cons by simp
    qed
  qed
qed

lemma noAdjacentSpaces_tl: "noAdjacentSpaces (c # s) \<Longrightarrow> noAdjacentSpaces s"
  by (cases s) auto

lemma noAdjacentSpaces_dropWhile: "noAdjacentSpaces s \<Longrightarrow> noAdjacentSpaces (dropWhile Q s)"
  by (induction s) (auto dest: noAdjacentSpaces_tl)

lemma noAdjacentSpaces_snoc:
  "noAdjacentSpaces (s @ [c]) \<longleftrightarrow>
     noAdjacentSpaces s \<and> (s = [] \<or> \<not> isSpace (last s) \<or> \<not> isSpace c)"
  by (induction s rule: noAdjacentSpaces.induct) auto

lemma noAdjacentSpaces_Cons:
  "noAdjacentSpaces (c # s) \<longleftrightarrow>
     noAdjacentSpaces s \<and> (s = [] \<or> \<not> isSpace c \<or> \<not> isSpace (hd s))"
  by (cases s) auto

lemma noAdjacentSpaces_rev: "noAdjacentSpaces (rev s) = noAdjacentSpaces s"
proof (induction s)
  case Nil
  show ?case by simp
next
  case (Cons c s)
  then show ?case
    by (auto simp: noAdjacentSpaces_snoc noAdjacentSpaces_Cons last_rev)
qed

lemma noAdjacentSpaces_trim: "noAdjacentSpaces s \<Longrightarrow> noAdjacentSpaces (trim s)"
  by (simp add: trim_def noAdjacentSpaces_rev noAdjacentSpaces_dropWhile)

lemma formatTextContent_noAdjacentSpaces:
  "noAdjacentSpaces (formatTextContent P text)"
  by (simp add: formatTextContent_def Let_def noAdjacentSpaces_trim collapse_shape)

lemma formatTextContent_no_double_newline:
  "formatTextContent P text \<noteq> a @ [10, 10] @ b"
proof
  assume e: "formatTextContent P text = a @ [10, 10] @ b"
  have "\<not> noAdjacentSpaces (a @ [10, 10] @ b)"
    by (induction a rule: noAdjacentSpaces.induct) (auto simp: isSpace_def)
  with formatTextContent_noAdjacentSpaces [of P "text"] e show False by simp
qed

section \<open>The emission after a fragment\<close>

text \<open>
  C3. The text handed to \<open>onData\<close> after a fragment is to be the plain text view of
  the accumulation. It is not: \<open>accumulateStreamingContent\<close> receives the accumulation
  that already holds the fragment and appends a line feed and the fragment once more.
  For the single fragment \<open>a\<close> the accumulation is \<open>a\<close>, its view is \<open>a\<close>, and the
  text delivered is \<open>a\<close>, a line feed and \<open>a\<close>.
\<close>

theorem emission_is_not_the_view_of_the_accumulation:
  \<open>streamContract refPlatform (\<lambda>c. False) [Chunk (str ''data: {"text":"a"}\<newline>'')] =
     start\<lparr>accumulatedContent := str ''a'', calls := [OnData (str ''a\<newline>a'') False]\<rparr> \<and>
   convertToPlainText refPlatform (str ''a'') = str ''a''\<close>
  by (simp add: run_defs)

text \<open>
  C5. A call of \<open>onData\<close> is to be made only when the fragment has changed the
  accumulation. The same fragment delivered twice gives two calls, the accumulation
  being the same after the second as after the first.
\<close>

theorem duplicate_fragment_is_emitted_again:
  \<open>streamContract refPlatform (\<lambda>c. False)
     [Chunk (str ''data: {"text":"a"}\<newline>data: {"text":"a"}\<newline>'')] =
   start\<lparr>accumulatedContent := str ''a'',
         calls := [OnData (str ''a\<newline>a'') False, OnData (str ''a\<newline>a'') False]\<rparr>\<close>
  by (simp add: run_defs)

lemma calls_invoke [simp]: "calls (invoke cancels c st) = calls st @ [c]"
  by (simp add: invoke_def)

lemma processTextContent_empty:
  "processTextContent P text acc = [] \<Longrightarrow> acc = []"
  by (auto simp: processTextContent_def Let_def split: if_splits)

text \<open>
  C5, as the code has it. Whether a call is made after a fragment depends on the
  accumulation the fragment leaves, not on a change: the call is made exactly when that
  accumulation and the text computed for the call are not empty. So a duplicate
  fragment, which leaves a non-empty accumulation as it was, is followed by a call.
\<close>

theorem emission_follows_nonempty_accumulation:
  "calls (emitText P cancels text st) =
     calls st @
     (if accumulatedContent (emitText P cancels text st) \<noteq> [] \<and>
         accumulateStreamingContent P text (accumulatedContent (emitText P cancels text st)) \<noteq> []
      then [OnData (accumulateStreamingContent P text
                      (accumulatedContent (emitText P cancels text st))) False]
      else [])"
  using processTextContent_empty [of P "text" "accumulatedContent st"]
  by (auto simp: emitText_def Let_def invoke_def)

theorem emission_follows_nonempty_accumulation_witness:
  \<open>accumulatedContent (emitText refPlatform (\<lambda>c. False) (str ''a'')
       (start\<lparr>accumulatedContent := str ''a''\<rparr>)) = str ''a'' \<and>
   calls (emitText refPlatform (\<lambda>c. False) (str ''a'') (start\<lparr>accumulatedContent := str ''a''\<rparr>)) =
     [OnData (str ''a\<newline>a'') False]\<close>
proof -
  have a: "accumulatedContent (emitText refPlatform (\<lambda>c. False) (str ''a'')
             (start\<lparr>accumulatedContent := str ''a''\<rparr>)) = str ''a''"
    by (simp add: run_defs)
  have b: "accumulateStreamingContent refPlatform (str ''a'') (str ''a'') = str ''a\<newline>a''"
    by (simp add: run_defs)
  from emission_follows_nonempty_accumulation
         [of refPlatform "\<lambda>c. False" "str ''a''" "start\<lparr>accumulatedContent := str ''a''\<rparr>"]
  show ?thesis using a b by (simp add: start_def)
qed

section \<open>The assembly of objects\<close>

text \<open>
  C1. An object delivered in pieces over several events is to be put together as if
  it had come in one event. When the cut falls beside white space it is not: each
  piece is trimmed before it is appended to the pending buffer. Of the object with the
  text \<open>a b\<close>, cut behind the space, the buffer keeps the first piece without the
  space, and the accumulation is \<open>ab\<close> where the uncut delivery gives \<open>a b\<close>.
\<close>

theorem split_at_white_space_loses_it:
  \<open>processLine refPlatform (\<lambda>c. False) start (str ''data: {"text":"a '') =
     start\<lparr>incompleteJsonBuffer := str ''{"text":"a''\<rparr> \<and>
   accumulatedContent (streamContract refPlatform (\<lambda>c. False)
     [Chunk (str ''data: {"text":"a \<newline>data: b"}\<newline>'')]) = str ''ab'' \<and>
   accumulatedContent (streamContract refPlatform (\<lambda>c. False)
     [Chunk (str ''data: {"text":"a b"}\<newline>'')]) = str ''a b''\<close>
  by (simp add: run_defs)

lemma splitOn_line: "d \<notin> set l \<Longrightarrow> splitOn d (l @ [d]) = [l, []]"
  by (induction l) (auto simp: Let_def)

lemma trim_id: "s \<noteq> [] \<Longrightarrow> \<not> isSpace (hd s) \<Longrightarrow> \<not> isSpace (last s) \<Longrightarrow> trim s = s"
proof -
  assume s: "s \<noteq> []" and h: "\<not> isSpace (hd s)" and l: "\<not> isSpace (last s)"
  from s h have 1: "dropWhile isSpace s = s" by (cases s) auto
  from s l have "\<not> isSpace (hd (rev s))" by (simp add: hd_rev)
  with s have 2: "dropWhile isSpace (rev s) = rev s" by (cases "rev s") auto
  show ?thesis by (simp add: trim_def 1 2)
qed

text \<open>
  What the assembly does achieve. An object cut into pieces that are not empty, have
  no white space at either edge and are not the completion marker, delivered one piece
  per event while the braces of the pieces so far do not balance, is processed as the
  uncut object is: the scan restarts on the whole buffer, so a cut inside a string or
  behind a backslash does no harm.
\<close>

lemma startsWith_append_one:
  "x \<noteq> [] \<Longrightarrow> startsWith (x @ y) [c] = startsWith x [c]"
  by (cases x) auto

lemma startsWith_one: "startsWith s [c] \<Longrightarrow> s \<noteq> [] \<and> hd s = c"
  by (cases s) auto

lemma startsWith_data: "startsWith (str ''data: '' @ p) (str ''data: '')"
  by simp

lemma processLine_piece:
  assumes "p \<noteq> []" and "\<not> isSpace (hd p)" and "\<not> isSpace (last p)"
    and "p \<noteq> str ''[DONE]''"
    and "startsWith (incompleteJsonBuffer st @ p) (str ''{'')"
  shows "processLine P cancels st (str ''data: '' @ p) =
     (if countBraces (incompleteJsonBuffer st @ p) = 0
      then parseComplete P cancels (st\<lparr>incompleteJsonBuffer := []\<rparr>) (incompleteJsonBuffer st @ p)
      else st\<lparr>incompleteJsonBuffer := incompleteJsonBuffer st @ p\<rparr>)"
proof -
  have t: "trim p = p" using assms(1-3) by (rule trim_id)
  have d: "drop 6 (str ''data: '' @ p) = p" by simp
  show ?thesis
    unfolding processLine_def Let_def d t
    using assms(1,4,5) startsWith_data [of p] by (cases "incompleteJsonBuffer st = []") auto
qed

lemma pieces_reassemble_from:
  assumes "ps \<noteq> []"
    and "\<forall>p\<in>set ps. p \<noteq> [] \<and> \<not> isSpace (hd p) \<and> \<not> isSpace (last p) \<and> p \<noteq> str ''[DONE]''"
    and "startsWith (incompleteJsonBuffer st @ concat ps) (str ''{'')"
    and "\<forall>k. 0 < k \<and> k < length ps \<longrightarrow>
           countBraces (incompleteJsonBuffer st @ concat (take k ps)) \<noteq> 0"
  shows "foldl (processLine P cancels) st (map (\<lambda>p. str ''data: '' @ p) ps) =
         processLine P cancels (st\<lparr>incompleteJsonBuffer := []\<rparr>)
           (str ''data: '' @ incompleteJsonBuffer st @ concat ps)"
  using assms
proof (induction ps arbitrary: st)
  case Nil
  then show ?case by simp
next
  case (Cons p qs)
  let ?b = "incompleteJsonBuffer st"
  let ?J = "?b @ concat (p # qs)"
  from Cons.prems(2) have p: "p \<noteq> []" "\<not> isSpace (hd p)" "\<not> isSpace (last p)" "p \<noteq> str ''[DONE]''"
    by auto
  have sbp: "startsWith (?b @ p) (str ''{'')"
    using Cons.prems(3) p(1) startsWith_append_one [of "?b @ p" "concat qs" 123] by simp
  have Jne: "?J \<noteq> []" using p(1) by simp
  have Jhd: "hd ?J = 123" using startsWith_one [of ?J 123] Cons.prems(3) by simp
  have lastJ: "last ?J = last (last (p # qs))"
  proof -
    have "concat (p # qs) = concat (butlast (p # qs)) @ last (p # qs)"
      by (metis append_butlast_last_id concat.simps(1,2) concat_append list.distinct(1) append_Nil2)
    moreover have "last (p # qs) \<noteq> []" using Cons.prems(2) by (metis last_in_set list.distinct(1))
    ultimately show ?thesis by (metis last_appendR append_assoc)
  qed
  have Jlast: "\<not> isSpace (last ?J)"
    unfolding lastJ using Cons.prems(2) by (metis last_in_set list.distinct(1))
  have Jdone: "?J \<noteq> str ''[DONE]''" using Jhd by auto
  have rhs: "processLine P cancels (st\<lparr>incompleteJsonBuffer := []\<rparr>) (str ''data: '' @ ?J) =
      (if countBraces ?J = 0
       then parseComplete P cancels (st\<lparr>incompleteJsonBuffer := []\<rparr>) ?J
       else st\<lparr>incompleteJsonBuffer := ?J\<rparr>)"
    using processLine_piece [of ?J "st\<lparr>incompleteJsonBuffer := []\<rparr>" P cancels]
      Jne Jhd Jlast Jdone Cons.prems(3) by (simp add: isSpace_def)
  show ?case
  proof (cases qs)
    case Nil
    then show ?thesis
      using rhs processLine_piece [OF p sbp, of P cancels] by simp
  next
    case (Cons q rs)
    have "countBraces (?b @ concat (take 1 (p # qs))) \<noteq> 0"
      using Cons.prems(4) Cons by (intro Cons.prems(4) [rule_format]) simp
    then have nz: "countBraces (?b @ p) \<noteq> 0" by simp
    let ?st = "st\<lparr>incompleteJsonBuffer := ?b @ p\<rparr>"
    have step: "processLine P cancels st (str ''data: '' @ p) = ?st"
      using processLine_piece [OF p sbp, of P cancels] nz by simp
    have ih: "foldl (processLine P cancels) ?st (map (\<lambda>p. str ''data: '' @ p) qs) =
          processLine P cancels (?st\<lparr>incompleteJsonBuffer := []\<rparr>)
            (str ''data: '' @ incompleteJsonBuffer ?st @ concat qs)"
    proof (rule Cons.IH)
      show "qs \<noteq> []" using Cons by simp
      show "\<forall>p\<in>set qs. p \<noteq> [] \<and> \<not> isSpace (hd p) \<and> \<not> isSpace (last p) \<and> p \<noteq> str ''[DONE]''"
        using Cons.prems(2) by simp
      show "startsWith (incompleteJsonBuffer ?st @ concat qs) (str ''{'')"
        using Cons.prems(3) by simp
      show "\<forall>k. 0 < k \<and> k < length qs \<longrightarrow>
              countBraces (incompleteJsonBuffer ?st @ concat (take k qs)) \<noteq> 0"
      proof (intro allI impI)
        fix k assume k: "0 < k \<and> k < length qs"
        then have "countBraces (?b @ concat (take (Suc k) (p # qs))) \<noteq> 0"
          by (intro Cons.prems(4) [rule_format]) simp
        then show "countBraces (incompleteJsonBuffer ?st @ concat (take k qs)) \<noteq> 0" by simp
      qed
    qed
    show ?thesis using step ih by simp
  qed
qed

lemma split_delivery_reassembles:
  assumes "ps \<noteq> []"
    and "\<forall>p\<in>set ps. p \<noteq> [] \<and> \<not> isSpace (hd p) \<and> \<not> isSpace (last p) \<and> p \<noteq> str ''[DONE]''"
    and "startsWith (concat ps) (str ''{'')"
    and "\<forall>k. 0 < k \<and> k < length ps \<longrightarrow> countBraces (concat (take k ps)) \<noteq> 0"
    and "incompleteJsonBuffer st = []"
  shows "foldl (processLine P cancels) st (map (\<lambda>p. str ''data: '' @ p) ps) =
         processLine P cancels st (str ''data: '' @ concat ps)"
proof -
  have e: "st\<lparr>incompleteJsonBuffer := []\<rparr> = st" using assms(5) by simp
  have "foldl (processLine P cancels) st (map (\<lambda>p. str ''data: '' @ p) ps) =
         processLine P cancels (st\<lparr>incompleteJsonBuffer := []\<rparr>)
           (str ''data: '' @ incompleteJsonBuffer st @ concat ps)"
    by (rule pieces_reassemble_from) (use assms in simp_all)
  then show ?thesis unfolding e assms(5) by simp
qed

text \<open>An object cut inside a string, behind the backslash of an escaped quote.\<close>

lemma cut_behind_backslash_reassembles:
  \<open>foldl (processLine refPlatform (\<lambda>c. False)) start
     [str ''data: {"text":"a'' @ [92], str ''data: "b"}''] =
   processLine refPlatform (\<lambda>c. False) start (str ''data: {"text":"a'' @ [92] @ str ''"b"}'') \<and>
   processLine refPlatform (\<lambda>c. False) start (str ''data: {"text":"a'' @ [92] @ str ''"b"}'') =
   start\<lparr>accumulatedContent := str ''a"b'', calls := [OnData (str ''a"b\<newline>a"b'') False]\<rparr>\<close>
proof -
  let ?ps = "[str ''{\"text\":\"a'' @ [92], str ''\"b\"}'']"
  have "foldl (processLine refPlatform (\<lambda>c. False)) start (map (\<lambda>p. str ''data: '' @ p) ?ps) =
        processLine refPlatform (\<lambda>c. False) start (str ''data: '' @ concat ?ps)"
  proof (rule split_delivery_reassembles)
    show "?ps \<noteq> []" by simp
    show "\<forall>p\<in>set ?ps. p \<noteq> [] \<and> \<not> isSpace (hd p) \<and> \<not> isSpace (last p) \<and> p \<noteq> str ''[DONE]''"
      by (simp add: isSpace_def)
    show "startsWith (concat ?ps) (str ''{'')" by simp
    show "\<forall>k. 0 < k \<and> k < length ?ps \<longrightarrow> countBraces (concat (take k ?ps)) \<noteq> 0"
    proof (intro allI impI)
      fix k assume "0 < k \<and> k < length ?ps"
      then have "k = 1" by simp
      then show "countBraces (concat (take k ?ps)) \<noteq> 0" by (simp add: countBraces_def)
    qed
    show "incompleteJsonBuffer start = []" by (simp add: start_def)
  qed
  moreover have "processLine refPlatform (\<lambda>c. False) start
       (str ''data: {\"text\":\"a'' @ [92] @ str ''\"b\"}'') =
     start\<lparr>accumulatedContent := str ''a\"b'', calls := [OnData (str ''a\"b\<newline>a\"b'') False]\<rparr>"
    by (simp add: run_defs)
  ultimately show ?thesis by simp
qed

lemma scanBraces_plain:
  "scanBraces (replicate n 120) False False k = k"
  by (induction n) auto

lemma pending_of_open_object:
  "incompleteJsonBuffer
     (streamContract P cancels [Chunk (str ''data: {'' @ replicate n 120 @ [10])]) =
   123 # replicate n 120"
proof -
  let ?l = "str ''data: {'' @ replicate n 120"
  have sp: "splitOn 10 (?l @ [10]) = [?l, []]"
    by (rule splitOn_line) auto
  have "last (123 # replicate n 120) = (if n = 0 then 123 else 120)"
    by (cases n) auto
  then have tr: "trim (123 # replicate n 120) = 123 # replicate n 120"
    by (intro trim_id) (auto simp: isSpace_def)
  have cb: "countBraces (123 # replicate n 120) = 1"
    by (simp add: countBraces_def scanBraces_plain)
  have "processLine P cancels start ?l = start\<lparr>incompleteJsonBuffer := 123 # replicate n 120\<rparr>"
    by (simp add: processLine_def Let_def tr cb start_def)
  moreover have "streamContract P cancels [Chunk (?l @ [10])] = processLine P cancels start ?l"
    using sp by (simp add: streamContract_def processChunk_def Let_def start_def)
  ultimately show ?thesis by simp
qed

text \<open>
  C8. The pending buffer is to stay below a fixed size. It does not: for every bound
  there is a stream, a single event that opens an object and does not close it, after
  which the buffer is longer.
\<close>

theorem pending_buffer_has_no_bound:
  "\<not> (\<exists>N. \<forall>rs. length (incompleteJsonBuffer (streamContract refPlatform (\<lambda>c. False) rs)) \<le> N)"
proof
  assume "\<exists>N. \<forall>rs. length (incompleteJsonBuffer (streamContract refPlatform (\<lambda>c. False) rs)) \<le> N"
  then obtain N where
    "\<forall>rs. length (incompleteJsonBuffer (streamContract refPlatform (\<lambda>c. False) rs)) \<le> N"
    by blast
  then have "length (incompleteJsonBuffer (streamContract refPlatform (\<lambda>c. False)
                [Chunk (str ''data: {'' @ replicate N 120 @ [10])])) \<le> N"
    by blast
  then show False by (simp only: pending_of_open_object) simp
qed

lemma pending_emitText [simp]:
  "incompleteJsonBuffer (emitText P cancels text st) = incompleteJsonBuffer st"
  by (simp add: emitText_def Let_def invoke_def)

lemma pending_processParts:
  "processParts P cancels parts st = Normal st' \<or> processParts P cancels parts st = Thrown st'
   \<Longrightarrow> incompleteJsonBuffer st' = incompleteJsonBuffer st"
proof (induction parts arbitrary: st)
  case Nil
  then show ?case by auto
next
  case (Cons part parts)
  from Cons.prems show ?case
    by (auto split: if_splits option.splits dest!: Cons.IH)
qed

lemma pending_processParts_Normal:
  "processParts P cancels parts st = Normal st' \<Longrightarrow>
   incompleteJsonBuffer st' = incompleteJsonBuffer st"
  using pending_processParts [of P cancels parts st st'] by simp

lemma pending_processParts_Thrown:
  "processParts P cancels parts st = Thrown st' \<Longrightarrow>
   incompleteJsonBuffer st' = incompleteJsonBuffer st"
  using pending_processParts [of P cancels parts st st'] by simp

lemma pending_processCandidates:
  "processCandidates P cancels cands st = Normal st' \<or>
   processCandidates P cancels cands st = Thrown st'
   \<Longrightarrow> incompleteJsonBuffer st' = incompleteJsonBuffer st"
proof (induction cands arbitrary: st)
  case Nil
  then show ?case by auto
next
  case (Cons cand cands)
  from Cons.prems show ?case
    by (auto split: if_splits option.splits json.splits completion.splits
             dest!: Cons.IH pending_processParts_Normal pending_processParts_Thrown)
qed

lemma pending_handleParsed:
  "handleParsed P cancels parsed st = Normal st' \<or>
   handleParsed P cancels parsed st = Thrown st'
   \<Longrightarrow> incompleteJsonBuffer st' = incompleteJsonBuffer st"
  by (auto simp: handleParsed_def split: if_splits option.splits json.splits
           dest!: pending_processCandidates)

lemma pending_parseComplete [simp]:
  "incompleteJsonBuffer (parseComplete P cancels st jsonData) = incompleteJsonBuffer st"
  using pending_handleParsed [of P cancels _ st]
  by (auto simp: parseComplete_def split: option.splits completion.splits)

text \<open>
  C8, as the code has it. There is no largest size and no overflow error; what a line
  does to the pending buffer is this. A data line whose payload is neither empty nor
  the completion marker, and for which buffer and payload together start with an
  opening brace and have a brace count other than zero, makes the buffer that whole
  text, whatever the length, and changes nothing else: no callback, no reported
  failure. A data line with such a payload for which they do not start with a brace,
  or for which the count is zero, leaves the buffer empty. Every other line, the
  completion marker and the empty payload among them, leaves the buffer as it is.
\<close>

theorem pending_buffer_after_a_line:
  "incompleteJsonBuffer (processLine P cancels st line) =
     (if startsWith line (str ''data: '') \<and> trim (drop 6 line) \<noteq> str ''[DONE]'' \<and>
         trim (drop 6 line) \<noteq> []
      then (if startsWith (incompleteJsonBuffer st @ trim (drop 6 line)) (str ''{'') \<and>
               countBraces (incompleteJsonBuffer st @ trim (drop 6 line)) \<noteq> 0
            then incompleteJsonBuffer st @ trim (drop 6 line)
            else [])
      else incompleteJsonBuffer st) \<and>
   (startsWith line (str ''data: '') \<and> trim (drop 6 line) \<noteq> str ''[DONE]'' \<and>
    trim (drop 6 line) \<noteq> [] \<and>
    startsWith (incompleteJsonBuffer st @ trim (drop 6 line)) (str ''{'') \<and>
    countBraces (incompleteJsonBuffer st @ trim (drop 6 line)) \<noteq> 0 \<longrightarrow>
      processLine P cancels st line =
        st\<lparr>incompleteJsonBuffer := incompleteJsonBuffer st @ trim (drop 6 line)\<rparr>)"
proof (cases "incompleteJsonBuffer st = []")
  case True
  then show ?thesis by (simp add: processLine_def Let_def)
next
  case False
  then show ?thesis by (simp add: processLine_def Let_def)
qed

theorem pending_buffer_after_a_line_witness:
  \<open>processLine refPlatform (\<lambda>c. False) (start\<lparr>incompleteJsonBuffer := str ''{"te''\<rparr>)
     (str ''data: xt":"'') =
   start\<lparr>incompleteJsonBuffer := str ''{"text":"''\<rparr> \<and>
   incompleteJsonBuffer (processLine refPlatform (\<lambda>c. False)
     (start\<lparr>incompleteJsonBuffer := str ''{"te''\<rparr>) (str ''data: [DONE]'')) = str ''{"te'' \<and>
   incompleteJsonBuffer (processLine refPlatform (\<lambda>c. False)
     (start\<lparr>incompleteJsonBuffer := str ''{"te''\<rparr>) (str ''event: ping'')) = str ''{"te''\<close>
proof -
  let ?st = "start\<lparr>incompleteJsonBuffer := str ''{\"te''\<rparr>"
  have t: "trim (drop 6 (str ''data: xt\":\"'')) = str ''xt\":\"''"
    "trim (drop 6 (str ''data: [DONE]'')) = str ''[DONE]''"
    by (simp_all add: trim_def isSpace_def)
  have c: "countBraces (str ''{\"text\":\"'') \<noteq> 0" by (simp add: countBraces_def)
  from pending_buffer_after_a_line [of refPlatform "\<lambda>c. False" ?st "str ''data: xt\":\"''"]
       pending_buffer_after_a_line [of refPlatform "\<lambda>c. False" ?st "str ''data: [DONE]''"]
       pending_buffer_after_a_line [of refPlatform "\<lambda>c. False" ?st "str ''event: ping''"]
  show ?thesis using t c by (simp add: start_def)
qed














text \<open>A run with a refused object followed by a good one.\<close>

lemma run_goes_on_after_malformed_object:
  \<open>streamContract refPlatform (\<lambda>c. False)
     [Chunk (str ''data: {"text":"a"}"\<newline>data: {"text":"b"}\<newline>''), Done] =
   start\<lparr>accumulatedContent := str ''b'',
         calls := [OnData (str ''b\<newline>b'') False, OnData (str ''b'') True, OnComplete],
         failures := [str ''{"text":"a"}"'']\<rparr>\<close>
  by (simp add: run_defs)

section \<open>The end of the stream and cancellation\<close>

text \<open>
  C10. When the stream ends while the accumulation is empty, no fragment having been
  extracted, no call with the final tag is to be made. A stream that consists of the
  text \<open>x\<close> without a line feed has an empty accumulation when it ends, and still a
  call with the final tag is made: the end of the stream flushes what is left in the
  line buffer into the accumulation before the accumulation is tested.
\<close>

theorem final_call_for_text_left_in_line_buffer:
  \<open>streamContract refPlatform (\<lambda>c. False) [Chunk (str ''x'')] = start\<lparr>buffer := str ''x''\<rparr> \<and>
   streamContract refPlatform (\<lambda>c. False) [Chunk (str ''x''), Done] =
     start\<lparr>buffer := str ''x'', accumulatedContent := str ''x'',
           calls := [OnData (str ''x'') True, OnComplete]\<rparr>\<close>
  by (simp add: run_defs)

text \<open>
  C10, as the code has it. The call with the final tag depends on the accumulation
  after the line buffer has been flushed into it: it is made exactly when that
  accumulation is not empty, and \<open>onComplete\<close> is called once in both cases. So when
  the stream ends while the accumulation is empty and the line buffer holds nothing
  but white space, \<open>onComplete\<close> is the only call.
\<close>

theorem final_call_depends_on_flushed_accumulation:
  assumes "\<not> aborted st"
  shows "(let flushed =
             (if trim (buffer st) \<noteq> [] \<and>
                 processBufferContent P (buffer st) (accumulatedContent st) \<noteq> []
              then processBufferContent P (buffer st) (accumulatedContent st)
              else accumulatedContent st)
          in accumulatedContent (readLoop P cancels st (Done # rs)) = flushed \<and>
             calls (readLoop P cancels st (Done # rs)) =
               calls st @
               (if flushed = [] then []
                else [OnData (convertToPlainText P (cleanupAccumulatedContent flushed)) True]) @
               [OnComplete]) \<and>
         (accumulatedContent st = [] \<and> trim (buffer st) = [] \<longrightarrow>
            calls (readLoop P cancels st (Done # rs)) = calls st @ [OnComplete])"
  using assms by (auto simp: finish_def Let_def invoke_def)

theorem final_call_depends_on_flushed_accumulation_witness:
  \<open>\<not> aborted start \<and> accumulatedContent start = [] \<and> trim (buffer start) = [] \<and>
   calls (readLoop refPlatform (\<lambda>c. False) start [Done]) = [OnComplete]\<close>
proof -
  have a: "\<not> aborted start" by (simp add: start_def)
  have b: "accumulatedContent start = [] \<and> trim (buffer start) = []"
    by (simp add: start_def trim_def)
  from final_call_depends_on_flushed_accumulation [OF a, of refPlatform "\<lambda>c. False" "[]"] b
  have "calls (readLoop refPlatform (\<lambda>c. False) start [Done]) = calls start @ [OnComplete]"
    by blast
  then show ?thesis using a b by (simp add: start_def)
qed

lemma quietStep_refl [simp]: "quietStep st st"
  by (simp add: quietStep_def)

lemma quietStep_trans: "quietStep a b \<Longrightarrow> quietStep b c \<Longrightarrow> quietStep a c"
  by (auto simp: quietStep_def)

lemma quietStep_fields [simp]:
  "quietStep st (st'\<lparr>incompleteJsonBuffer := p\<rparr>) = quietStep st st'"
  "quietStep st (st'\<lparr>failures := f\<rparr>) = quietStep st st'"
  "quietStep st (st'\<lparr>buffer := b\<rparr>) = quietStep st st'"
  "quietStep st (st'\<lparr>accumulatedContent := a\<rparr>) = quietStep st st'"
  "quietStep (st\<lparr>incompleteJsonBuffer := p\<rparr>) st' = quietStep st st'"
  "quietStep (st\<lparr>buffer := b\<rparr>) st' = quietStep st st'"
  by (simp_all add: quietStep_def)

lemma quietStep_emitText:
  assumes "\<forall>c. \<not> cancels c"
  shows "quietStep st (emitText P cancels text st)"
  using assms by (simp add: emitText_def Let_def invoke_def quietStep_def)

lemma quietStep_processParts:
  assumes "\<forall>c. \<not> cancels c"
  shows "processParts P cancels parts st = Normal st' \<or> processParts P cancels parts st = Thrown st'
         \<Longrightarrow> quietStep st st'"
proof (induction parts arbitrary: st)
  case Nil
  then show ?case by auto
next
  case (Cons part parts)
  have e: "quietStep st (emitText P cancels t st)" for t
    by (rule quietStep_emitText [OF assms])
  show ?case
  proof (cases "part = JNull")
    case True
    with Cons.prems show ?thesis by auto
  next
    case False
    show ?thesis
    proof (cases "getProp part (str ''text'')")
      case None
      with False Cons show ?thesis by auto
    next
      case (Some t)
      show ?thesis
      proof (cases "truthy t")
        case nt: False
        with False Some Cons show ?thesis by auto
      next
        case tt: True
        show ?thesis
        proof (cases "toStr t")
          case None
          with False Some tt Cons.prems show ?thesis by auto
        next
          case (Some u)
          with False \<open>getProp part (str ''text'') = Some t\<close> tt Cons.prems
          have "processParts P cancels parts (emitText P cancels u st) = Normal st' \<or>
                processParts P cancels parts (emitText P cancels u st) = Thrown st'"
            by auto
          then have "quietStep (emitText P cancels u st) st'" by (rule Cons.IH)
          with e [of u] show ?thesis by (rule quietStep_trans)
        qed
      qed
    qed
  qed
qed

lemma quietStep_processCandidates:
  assumes "\<forall>c. \<not> cancels c"
  shows "processCandidates P cancels cands st = Normal st' \<or>
         processCandidates P cancels cands st = Thrown st' \<Longrightarrow> quietStep st st'"
proof (induction cands arbitrary: st)
  case Nil
  then show ?case by auto
next
  case (Cons cand cands)
  note pp = quietStep_processParts [OF assms]
  from Cons.prems show ?case
    by (auto split: if_splits option.splits json.splits completion.splits
             dest!: Cons.IH intro: quietStep_trans pp)
qed

lemma quietStep_handleParsed:
  assumes "\<forall>c. \<not> cancels c"
  shows "handleParsed P cancels parsed st = Normal st' \<or>
         handleParsed P cancels parsed st = Thrown st' \<Longrightarrow> quietStep st st'"
  using quietStep_processCandidates [OF assms] quietStep_emitText [OF assms]
  by (auto simp: handleParsed_def split: if_splits option.splits json.splits)

lemma quietStep_processLine:
  assumes "\<forall>c. \<not> cancels c"
  shows "quietStep st (processLine P cancels st line)"
  using quietStep_handleParsed [OF assms, of P _ "st\<lparr>incompleteJsonBuffer := []\<rparr>"]
  by (auto simp: processLine_def parseComplete_def Let_def split: option.splits completion.splits)

lemma quietStep_foldl:
  assumes "\<forall>c. \<not> cancels c"
  shows "quietStep st (foldl (processLine P cancels) st ls)"
proof (induction ls arbitrary: st)
  case Nil
  show ?case by simp
next
  case (Cons l ls)
  have "quietStep st (processLine P cancels st l)"
    by (rule quietStep_processLine [OF assms])
  moreover have "quietStep (processLine P cancels st l)
                   (foldl (processLine P cancels) (processLine P cancels st l) ls)"
    by (rule Cons.IH)
  ultimately show ?case by (auto intro: quietStep_trans)
qed

lemma quietStep_processChunk:
  assumes "\<forall>c. \<not> cancels c"
  shows "quietStep st (processChunk P cancels st chunk)"
  using quietStep_foldl [OF assms, of "st\<lparr>buffer := last (splitOn 10 (buffer st @ chunk))\<rparr>"]
  by (simp add: processChunk_def Let_def)

lemma readLoop_chunks:
  assumes "\<forall>c. \<not> cancels c"
  shows "\<not> aborted st \<Longrightarrow>
         \<exists>st'. quietStep st st' \<and>
               readLoop P cancels st (map Chunk chunks @ rs) = readLoop P cancels st' rs"
proof (induction chunks arbitrary: st)
  case Nil
  show ?case by (auto intro: exI [of _ st])
next
  case (Cons chunk chunks)
  let ?st1 = "processChunk P cancels st chunk"
  have q: "quietStep st ?st1" by (rule quietStep_processChunk [OF assms])
  then have "\<not> aborted ?st1" using Cons.prems by (simp add: quietStep_def)
  then obtain st' where "quietStep ?st1 st'"
    and "readLoop P cancels ?st1 (map Chunk chunks @ rs) = readLoop P cancels st' rs"
    using Cons.IH by blast
  then show ?case using q Cons.prems by (auto intro: quietStep_trans)
qed

lemma finish_calls:
  "\<exists>fin. calls (finish P cancels st) = calls st @ fin @ [OnComplete] \<and>
         (if accumulatedContent (finish P cancels st) = [] then fin = []
          else \<exists>t. fin = [OnData t True])"
  by (auto simp: finish_def Let_def invoke_def)

text \<open>
  C2. At the end of every stream exactly one call is to carry the final tag. A stream
  whose only fragment is a space, followed by the completion marker and the end of
  the stream, gets none: the accumulation is empty and \<open>onComplete\<close> is the only call.
\<close>

theorem no_final_call_for_empty_fragments:
  \<open>calls (streamContract refPlatform (\<lambda>c. False)
     [Chunk (str ''data: {"text":" "}\<newline>data: [DONE]\<newline>''), Done]) = [OnComplete]\<close>
  by (simp add: run_defs)

text \<open>
  C2, as the code has it. For a caller that does not cancel, and any chunks followed
  by the end of the stream: the calls are calls of \<open>onData\<close> without the final tag,
  then one call with the final tag if the accumulation is not empty and none if it is,
  then one call of \<open>onComplete\<close>.
\<close>

theorem final_call_once_iff_accumulation_nonempty:
  assumes "\<forall>c. \<not> cancels c"
  shows "\<exists>nonfinal fin.
           calls (streamContract P cancels (map Chunk chunks @ [Done])) =
             nonfinal @ fin @ [OnComplete] \<and>
           list_all isNonFinal nonfinal \<and>
           (if accumulatedContent (streamContract P cancels (map Chunk chunks @ [Done])) = []
            then fin = [] else \<exists>t. fin = [OnData t True])"
proof -
  have "\<not> aborted start" by (simp add: start_def)
  then obtain st' where q: "quietStep start st'"
    and r: "readLoop P cancels start (map Chunk chunks @ [Done]) = readLoop P cancels st' [Done]"
    using readLoop_chunks [OF assms] by blast
  from q have na: "\<not> aborted st'" and nf: "list_all isNonFinal (calls st')"
    by (auto simp: quietStep_def start_def)
  from na r have s: "streamContract P cancels (map Chunk chunks @ [Done]) = finish P cancels st'"
    by (simp add: streamContract_def)
  from finish_calls [of P cancels st'] nf show ?thesis
    unfolding s by blast
qed

theorem final_call_once_iff_accumulation_nonempty_witness:
  \<open>(\<forall>c. \<not> (\<lambda>c::callback. False) c) \<and>
   calls (streamContract refPlatform (\<lambda>c. False)
     (map Chunk [str ''data: {"text":"a"}\<newline>'', str ''data: [DONE]\<newline>''] @ [Done])) =
     [OnData (str ''a\<newline>a'') False, OnData (str ''a'') True, OnComplete]\<close>
proof -
  have h: "\<forall>c. \<not> (\<lambda>c::callback. False) c" by simp
  from final_call_once_iff_accumulation_nonempty
         [OF h, of refPlatform "[str ''data: {\"text\":\"a\"}\<newline>'', str ''data: [DONE]\<newline>'']"]
  show ?thesis by (simp add: run_defs)
qed

lemma advance_refl [simp]: "advance cancels st st"
  by (simp add: advance_def)

lemma advance_trans: "advance cancels a b \<Longrightarrow> advance cancels b c \<Longrightarrow> advance cancels a c"
  by (auto simp: advance_def)

lemma advance_fields [simp]:
  "advance cancels st (st'\<lparr>incompleteJsonBuffer := p\<rparr>) = advance cancels st st'"
  "advance cancels st (st'\<lparr>failures := f\<rparr>) = advance cancels st st'"
  "advance cancels st (st'\<lparr>buffer := b\<rparr>) = advance cancels st st'"
  "advance cancels st (st'\<lparr>accumulatedContent := a\<rparr>) = advance cancels st st'"
  "advance cancels (st\<lparr>incompleteJsonBuffer := p\<rparr>) st' = advance cancels st st'"
  "advance cancels (st\<lparr>buffer := b\<rparr>) st' = advance cancels st st'"
  by (simp_all add: advance_def)

lemma advance_emitText: "advance cancels st (emitText P cancels text st)"
  by (simp add: emitText_def Let_def invoke_def advance_def)

lemma advance_processParts:
  "processParts P cancels parts st = Normal st' \<or> processParts P cancels parts st = Thrown st'
   \<Longrightarrow> advance cancels st st'"
proof (induction parts arbitrary: st)
  case Nil
  then show ?case by auto
next
  case (Cons part parts)
  note e = advance_emitText [of cancels st P]
  from Cons.prems show ?case
    by (auto split: if_splits option.splits dest!: Cons.IH intro: advance_trans [OF e])
qed

lemma advance_processCandidates:
  "processCandidates P cancels cands st = Normal st' \<or>
   processCandidates P cancels cands st = Thrown st' \<Longrightarrow> advance cancels st st'"
proof (induction cands arbitrary: st)
  case Nil
  then show ?case by auto
next
  case (Cons cand cands)
  note pp = advance_processParts
  from Cons.prems show ?case
    by (auto split: if_splits option.splits json.splits completion.splits
             dest!: Cons.IH intro: advance_trans pp)
qed

lemma advance_handleParsed:
  "handleParsed P cancels parsed st = Normal st' \<or>
   handleParsed P cancels parsed st = Thrown st' \<Longrightarrow> advance cancels st st'"
  using advance_processCandidates advance_emitText
  by (auto simp: handleParsed_def split: if_splits option.splits json.splits)

lemma advance_processLine: "advance cancels st (processLine P cancels st line)"
  using advance_handleParsed [of P cancels _ "st\<lparr>incompleteJsonBuffer := []\<rparr>"]
  by (auto simp: processLine_def parseComplete_def Let_def split: option.splits completion.splits)

lemma advance_foldl: "advance cancels st (foldl (processLine P cancels) st ls)"
proof (induction ls arbitrary: st)
  case Nil
  show ?case by simp
next
  case (Cons l ls)
  have "advance cancels st (processLine P cancels st l)" by (rule advance_processLine)
  moreover have "advance cancels (processLine P cancels st l)
                   (foldl (processLine P cancels) (processLine P cancels st l) ls)"
    by (rule Cons.IH)
  ultimately show ?case by (auto intro: advance_trans)
qed

lemma advance_processChunk: "advance cancels st (processChunk P cancels st chunk)"
  using advance_foldl [of cancels "st\<lparr>buffer := last (splitOn 10 (buffer st @ chunk))\<rparr>"]
  by (simp add: processChunk_def Let_def)

lemma cancelInv_advance:
  assumes "cancelInv cancels st" and "\<not> aborted st" and "advance cancels st st'"
  shows "cancelInv cancels st'"
proof -
  from assms(3) obtain xs where xs: "calls st' = calls st @ xs" "list_all isNonFinal xs"
    "aborted st' = (aborted st \<or> list_ex cancels xs)"
    by (auto simp: advance_def)
  from assms(1,2) have none: "\<not> list_ex cancels (calls st)" by (simp add: cancelInv_def)
  have "list_all isNonFinal post"
    if "calls st' = pre @ c # post" and "cancels c" for pre c post
  proof -
    from that(1) xs(1) have "pre @ c # post = calls st @ xs" by simp
    then have "\<exists>us. (pre = calls st @ us \<and> us @ c # post = xs) \<or>
                    (pre @ us = calls st \<and> c # post = us @ xs)"
      by (simp only: append_eq_append_conv2)
    then obtain us where "(pre = calls st @ us \<and> us @ c # post = xs) \<or>
                          (pre @ us = calls st \<and> c # post = us @ xs)"
      by (rule exE)
    then show ?thesis
    proof
      assume "pre = calls st @ us \<and> us @ c # post = xs"
      then have "xs = us @ c # post" by simp
      with xs(2) show ?thesis by simp
    next
      assume a: "pre @ us = calls st \<and> c # post = us @ xs"
      show ?thesis
      proof (cases us)
        case Nil
        with a have "xs = c # post" by simp
        with xs(2) show ?thesis by simp
      next
        case (Cons u us')
        with a have "c = u" by simp
        then have "c \<in> set (pre @ us)" using Cons by simp
        then have "c \<in> set (calls st)" using a by simp
        with that(2) none show ?thesis by (simp add: list_ex_iff)
      qed
    qed
  qed
  moreover have "aborted st' = list_ex cancels (calls st')"
    using xs(1,3) assms(2) none by (auto simp: list_ex_iff)
  ultimately show ?thesis unfolding cancelInv_def by simp
qed

lemma cancelInv_other:
  assumes "cancelInv cancels st" and "\<not> aborted st"
    and "calls st' = calls st @ ys" and "\<forall>c\<in>set ys. \<not> isNonFinal c"
    and "aborted st' = list_ex cancels ys"
  shows "cancelInv cancels st'"
proof -
  from assms(1,2) have none: "\<not> list_ex cancels (calls st)" by (simp add: cancelInv_def)
  have "list_all isNonFinal post"
    if "calls st' = pre @ c # post" and "cancels c" and "isNonFinal c" for pre c post
  proof -
    have "c \<in> set (calls st')" using that(1) by simp
    then have "c \<in> set (calls st) \<or> c \<in> set ys" using assms(3) by simp
    then show ?thesis using none that(2,3) assms(4) by (auto simp: list_ex_iff)
  qed
  moreover have "aborted st' = list_ex cancels (calls st')"
    using assms(3,5) none by (auto simp: list_ex_iff)
  ultimately show ?thesis unfolding cancelInv_def by simp
qed

lemma finish_trace:
  "\<exists>ys. calls (finish P cancels st) = calls st @ ys \<and> (\<forall>c\<in>set ys. \<not> isNonFinal c) \<and>
        aborted (finish P cancels st) = (aborted st \<or> list_ex cancels ys)"
  by (auto simp: finish_def Let_def invoke_def)

lemma cancelInv_readLoop:
  "cancelInv cancels st \<Longrightarrow> cancelInv cancels (readLoop P cancels st rs)"
proof (induction rs arbitrary: st)
  case Nil
  then show ?case by simp
next
  case (Cons r rs)
  show ?case
  proof (cases "aborted st")
    case True
    with Cons.prems show ?thesis by simp
  next
    case False
    show ?thesis
    proof (cases r)
      case (Chunk chunk)
      have "cancelInv cancels (processChunk P cancels st chunk)"
        using Cons.prems False advance_processChunk by (rule cancelInv_advance)
      then show ?thesis using False Chunk Cons.IH by simp
    next
      case Done
      obtain ys where ys: "calls (finish P cancels st) = calls st @ ys"
        "\<forall>c\<in>set ys. \<not> isNonFinal c"
        "aborted (finish P cancels st) = (aborted st \<or> list_ex cancels ys)"
        using finish_trace by blast
      from ys(3) False have ab: "aborted (finish P cancels st) = list_ex cancels ys" by simp
      have "cancelInv cancels (finish P cancels st)"
        by (rule cancelInv_other [OF Cons.prems False ys(1) ys(2) ab])
      then show ?thesis using False Done by simp
    next
      case (Failed e)
      have 1: "calls (invoke cancels (OnError e) st) = calls st @ [OnError e]"
        by (simp add: invoke_def)
      have 2: "\<forall>c\<in>set [OnError e]. \<not> isNonFinal c" by simp
      have 3: "aborted (invoke cancels (OnError e) st) = list_ex cancels [OnError e]"
        using False by (simp add: invoke_def)
      have "cancelInv cancels (invoke cancels (OnError e) st)"
        by (rule cancelInv_other [OF Cons.prems False 1 2 3])
      then show ?thesis using False Failed Cons.prems by simp
    qed
  qed
qed

lemma readLoop_append_aborted:
  "aborted (readLoop P cancels st rs) \<Longrightarrow>
   readLoop P cancels st (rs @ rs') = readLoop P cancels st rs"
proof (induction rs arbitrary: st)
  case Nil
  then show ?case by (cases rs') auto
next
  case (Cons r rs)
  then show ?case by (cases r) auto
qed

lemma readLoop_append_AbortError:
  "readLoop P cancels st (rs @ Failed AbortError # rs') = readLoop P cancels st rs"
proof (induction rs arbitrary: st)
  case Nil
  show ?case by simp
next
  case (Cons r rs)
  then show ?case by (cases r) auto
qed

text \<open>
  C6. After the cancellation signal is triggered no callback is to be called any more.
  The signal is read at the top of the read loop only: when the caller triggers it
  from within \<open>onData\<close>, the lines that remain of the chunk are still processed. Here
  the first call of \<open>onData\<close> cancels and a second call follows.
\<close>

theorem call_after_cancellation_inside_a_chunk:
  \<open>processLine refPlatform (\<lambda>c. True) start (str ''data: {"text":"a"}'') =
     start\<lparr>accumulatedContent := str ''a'', aborted := True,
           calls := [OnData (str ''a\<newline>a'') False]\<rparr> \<and>
   calls (streamContract refPlatform (\<lambda>c. True)
     [Chunk (str ''data: {"text":"a"}\<newline>data: {"text":"b"}\<newline>''), Done]) =
     [OnData (str ''a\<newline>a'') False, OnData (str ''ab\<newline>b'') False]\<close>
  by (simp add: run_defs)

text \<open>
  C6, as the code has it. Once the caller has triggered the signal from within a
  call of \<open>onData\<close> without the final tag, no call with the final tag, no call of
  \<open>onError\<close> and no call of \<open>onComplete\<close> is made any more: the only calls that can
  still follow are calls of \<open>onData\<close> without the final tag. Once a run has left the
  signal aborted, whatever the reader delivers afterwards changes nothing. And a read
  that is rejected with an \<open>AbortError\<close> ends the session without any call.
\<close>

theorem cancellation_leaves_only_pending_emissions:
  "(calls (streamContract P cancels reads) = pre @ c # post \<and> cancels c \<and> isNonFinal c \<longrightarrow>
      list_all isNonFinal post) \<and>
   (aborted (streamContract P cancels reads) \<longrightarrow>
      streamContract P cancels (reads @ more_reads) = streamContract P cancels reads) \<and>
   streamContract P cancels (reads @ Failed AbortError # more_reads) =
     streamContract P cancels reads"
proof -
  have "cancelInv cancels start" by (simp add: cancelInv_def start_def)
  then have "cancelInv cancels (streamContract P cancels reads)"
    unfolding streamContract_def by (rule cancelInv_readLoop)
  then have a: "list_all isNonFinal post"
    if "calls (streamContract P cancels reads) = pre @ c # post" "cancels c" "isNonFinal c"
    using that unfolding cancelInv_def by blast
  have b: "streamContract P cancels (reads @ more_reads) = streamContract P cancels reads"
    if "aborted (streamContract P cancels reads)"
    using that unfolding streamContract_def by (rule readLoop_append_aborted)
  have c: "streamContract P cancels (reads @ Failed AbortError # more_reads) =
             streamContract P cancels reads"
    unfolding streamContract_def by (rule readLoop_append_AbortError)
  show ?thesis using a b c by blast
qed

theorem cancellation_leaves_only_pending_emissions_witness:
  \<open>calls (streamContract refPlatform (\<lambda>c. True)
      [Chunk (str ''data: {"text":"a"}\<newline>data: {"text":"b"}\<newline>'')]) =
     [] @ OnData (str ''a\<newline>a'') False # [OnData (str ''ab\<newline>b'') False] \<and>
   (\<lambda>c. True) (OnData (str ''a\<newline>a'') False) \<and> isNonFinal (OnData (str ''a\<newline>a'') False) \<and>
   list_all isNonFinal [OnData (str ''ab\<newline>b'') False] \<and>
   aborted (streamContract refPlatform (\<lambda>c. True)
      [Chunk (str ''data: {"text":"a"}\<newline>data: {"text":"b"}\<newline>'')]) \<and>
   calls (streamContract refPlatform (\<lambda>c. True)
      ([Chunk (str ''data: {"text":"a"}\<newline>data: {"text":"b"}\<newline>'')] @ [Done])) =
     [OnData (str ''a\<newline>a'') False, OnData (str ''ab\<newline>b'') False]\<close>
proof -
  let ?rs = "[Chunk (str ''data: {\"text\":\"a\"}\<newline>data: {\"text\":\"b\"}\<newline>'')]"
  have run: "streamContract refPlatform (\<lambda>c. True) ?rs =
      start\<lparr>accumulatedContent := str ''ab'', aborted := True,
            calls := [OnData (str ''a\<newline>a'') False, OnData (str ''ab\<newline>b'') False]\<rparr>"
    by (simp add: run_defs)
  from cancellation_leaves_only_pending_emissions
         [of refPlatform "\<lambda>c. True" ?rs "[]" "OnData (str ''a\<newline>a'') False"
             "[OnData (str ''ab\<newline>b'') False]" "[Done]"]
  show ?thesis using run by (simp add: start_def)
qed

end
